theory Spec2Isabelle
  imports Main "HOL-Library.Multiset"
begin

section \<open>Scripts, witnesses and their items\<close>

text \<open>
  A Buffer is a list of byte values. A Script is its array of opcodes (\<open>code\<close>); a
  Witness is its array of stack items. Both are used through the same interface by
  \<open>scriptVector\<close> and \<open>signVector\<close> (\<open>length\<close>, \<open>get\<close>, \<open>getSmall\<close>, \<open>set\<close>,
  \<open>push\<close>, \<open>pop\<close>, \<open>remove\<close>), so one list type serves for both: \<open>Op 0\<close> is
  \<open>opcodes.OP_0\<close>, which in a witness is the empty stack item; \<open>Push b\<close> is a data item;
  \<open>Hole\<close> is an array index that was never assigned (JavaScript extends an array that
  is written beyond its end and reads the skipped indices as \<open>undefined\<close>).
\<close>

type_synonym bytes = "nat list"

datatype opcode = Hole | Op nat | Push bytes

type_synonym script = "opcode list"

text \<open>What \<open>get\<close> hands back: \<open>undefined\<close>, an opcode number, or a Buffer.\<close>

datatype jsval = Undefined | Num nat | Buf bytes

text \<open>
  Modelled from the spec: the Script and Witness classes (\<open>script/script\<close>) are not among
  the source files. The definitions below, down to \<open>fromPubkeyhash\<close>, are their
  accessors and recognisers for the authorization patterns the spec names (pubkey,
  pubkey-hash, bare m-of-n multisig, script-hash, witness programs), on the standard
  script templates: a multisig script is the threshold \<open>m\<close>, the \<open>n\<close> keys, the key count
  \<open>n\<close> and the check opcode, so that the keys are the items \<open>1 .. length - 3\<close> that
  \<open>signVector\<close> reads.
\<close>

definition OP_0 :: opcode where "OP_0 = Op 0"
definition OP_DUP :: nat where "OP_DUP = 118"
definition OP_EQUAL :: nat where "OP_EQUAL = 135"
definition OP_EQUALVERIFY :: nat where "OP_EQUALVERIFY = 136"
definition OP_HASH160 :: nat where "OP_HASH160 = 169"
definition OP_CHECKSIG :: nat where "OP_CHECKSIG = 172"
definition OP_CHECKMULTISIG :: nat where "OP_CHECKMULTISIG = 174"

fun opSmall :: "opcode \<Rightarrow> int" where
  "opSmall Hole = -1"
| "opSmall (Op v) = (if v = 0 then 0 else if 81 \<le> v \<and> v \<le> 96 then int v - 80 else -1)"
| "opSmall (Push b) = (if b = [] then 0 else -1)"

definition getSmall :: "script \<Rightarrow> int \<Rightarrow> int" where
  "getSmall s i = (if 0 \<le> i \<and> i < int (length s) then opSmall (s ! nat i) else -1)"

fun opGet :: "opcode \<Rightarrow> jsval" where
  "opGet Hole = Undefined"
| "opGet (Op v) = Num v"
| "opGet (Push b) = Buf b"

definition get :: "script \<Rightarrow> int \<Rightarrow> jsval" where
  "get s i = (if 0 \<le> i \<and> i < int (length s) then opGet (s ! nat i) else Undefined)"

definition vset :: "script \<Rightarrow> nat \<Rightarrow> opcode \<Rightarrow> script" where
  "vset v i x =
     (if i < length v then v[i := x] else v @ replicate (i - length v) Hole @ [x])"

definition push :: "script \<Rightarrow> opcode \<Rightarrow> script" where
  "push v x = v @ [x]"

definition pop :: "script \<Rightarrow> script" where
  "pop v = butlast v"

definition remove :: "script \<Rightarrow> nat \<Rightarrow> script" where
  "remove v i = take i v @ drop (Suc i) v"

definition isKey :: "jsval \<Rightarrow> bool" where
  "isKey x = (case x of Buf b \<Rightarrow> 33 \<le> length b \<and> length b \<le> 65 | _ \<Rightarrow> False)"

definition isSignature :: "jsval \<Rightarrow> bool" where
  "isSignature x = (case x of Buf b \<Rightarrow> 9 \<le> length b \<and> length b \<le> 73 | _ \<Rightarrow> False)"

definition isPubkey :: "script \<Rightarrow> bool" where
  "isPubkey s = (length s = 2 \<and> isKey (get s 0) \<and> s ! 1 = Op OP_CHECKSIG)"

definition isPubkeyhash :: "script \<Rightarrow> bool" where
  "isPubkeyhash s =
     (length s = 5 \<and> s ! 0 = Op OP_DUP \<and> s ! 1 = Op OP_HASH160 \<and>
      (case s ! 2 of Push h \<Rightarrow> length h = 20 | _ \<Rightarrow> False) \<and>
      s ! 3 = Op OP_EQUALVERIFY \<and> s ! 4 = Op OP_CHECKSIG)"

definition isMultisig :: "script \<Rightarrow> bool" where
  "isMultisig s =
     (let len = int (length s); n = getSmall s (len - 2); m = getSmall s 0
      in 4 \<le> len \<and> s ! (length s - 1) = Op OP_CHECKMULTISIG \<and>
         1 \<le> n \<and> 1 \<le> m \<and> m \<le> n \<and> len = n + 3 \<and>
         list_all (\<lambda>i. isKey (get s (int i))) [1 ..< length s - 2])"

definition isScripthash :: "script \<Rightarrow> bool" where
  "isScripthash s =
     (length s = 3 \<and> s ! 0 = Op OP_HASH160 \<and>
      (case s ! 1 of Push h \<Rightarrow> length h = 20 | _ \<Rightarrow> False) \<and>
      s ! 2 = Op OP_EQUAL)"

text \<open>A witness program: a version (0 to 16) and a data push of 2 to 40 bytes.\<close>

definition isProgram :: "script \<Rightarrow> bool" where
  "isProgram s =
     (length s = 2 \<and>
      (case s ! 0 of Op v \<Rightarrow> v = 0 \<or> (81 \<le> v \<and> v \<le> 96) | _ \<Rightarrow> False) \<and>
      (case s ! 1 of Push d \<Rightarrow> 2 \<le> length d \<and> length d \<le> 40 | _ \<Rightarrow> False))"

definition isWitnessPubkeyhash :: "script \<Rightarrow> bool" where
  "isWitnessPubkeyhash s =
     (length s = 2 \<and> s ! 0 = Op 0 \<and>
      (case s ! 1 of Push d \<Rightarrow> length d = 20 | _ \<Rightarrow> False))"

definition isWitnessScripthash :: "script \<Rightarrow> bool" where
  "isWitnessScripthash s =
     (length s = 2 \<and> s ! 0 = Op 0 \<and>
      (case s ! 1 of Push d \<Rightarrow> length d = 32 | _ \<Rightarrow> False))"

definition fromPubkeyhash :: "jsval \<Rightarrow> script" where
  "fromPubkeyhash h =
     [Op OP_DUP, Op OP_HASH160, (case h of Buf b \<Rightarrow> Push b | Num v \<Rightarrow> Op v | Undefined \<Rightarrow> Hole),
      Op OP_EQUALVERIFY, Op OP_CHECKSIG]"

section \<open>Coins, inputs, outputs, the mutable transaction\<close>

text \<open>
  A Coin is an Output (value and script) with its outpoint, its height (-1 when
  unconfirmed) and its coinbase flag. Amounts are JavaScript numbers holding integers.
\<close>

record Output =
  "value" :: int
  script :: script

record Coin = Output +
  hash :: bytes
  index :: nat
  height :: int
  coinbase :: bool

type_synonym outpoint = "bytes \<times> nat"

record Input =
  prevout :: outpoint
  in_script :: script
  witness :: script
  sequence :: int

record MTX =
  version :: nat
  inputs :: "Input list"
  outputs :: "Output list"
  locktime :: nat
  changeIndex :: int
  view :: "outpoint \<Rightarrow> Coin option"

datatype error =
    Error string
  | FundingError string "(int \<times> int) option"
  | AssertionError string

text \<open>
  What the sources take from modules that are not among them: the protocol constants,
  the fee functions of \<open>btc/utils\<close>, the size of a variable-length integer and of an
  output, the dust test of an output, the address conversions, and the order in which
  \<open>Array.prototype.sort\<close> leaves the coins when its comparator is \<open>sortRandom\<close>, which
  answers each comparison by \<open>Math.random\<close>. They are parameters of the model.
\<close>

type_synonym address = bytes

record env =
  MIN_FEE :: int
  MAX_FEE :: int
  MIN_RELAY :: int
  COINBASE_MATURITY :: int
  WITNESS_SCALE_FACTOR :: int
  getMinFee :: "int \<Rightarrow> int \<Rightarrow> int"
  getRoundFee :: "int \<Rightarrow> int \<Rightarrow> int"
  sizeVarint :: "int \<Rightarrow> int"
  getSize :: "Output \<Rightarrow> int"
  getDustThreshold :: "script \<Rightarrow> int"
  isDust :: "Output \<Rightarrow> int \<Rightarrow> bool"
  fromAddress :: "address \<Rightarrow> script"
  addressHash :: "address \<Rightarrow> bytes option"
  scriptHash :: "script \<Rightarrow> bytes option"
  sortRandom :: "Coin list \<Rightarrow> Coin list"

definition toOutput :: "Coin \<Rightarrow> Output" where
  "toOutput c = \<lparr>value = value c, script = script c\<rparr>"

subsection \<open>MTX: inputs, outputs, values\<close>

definition fromCoin :: "Coin \<Rightarrow> Input" where
  "fromCoin c = \<lparr>prevout = (hash c, index c), in_script = [], witness = [], sequence = 4294967295\<rparr>"

definition addInput :: "MTX \<Rightarrow> Coin \<Rightarrow> MTX" where
  "addInput t c =
     t\<lparr>view := (view t)((hash c, index c) \<mapsto> c), inputs := inputs t @ [fromCoin c]\<rparr>"

definition addOutput :: "MTX \<Rightarrow> Output \<Rightarrow> error + MTX" where
  "addOutput t out =
     (if value out \<ge> 0 then Inr (t\<lparr>outputs := outputs t @ [out]\<rparr>)
      else Inl (AssertionError ''value >= 0''))"

definition getOutput :: "MTX \<Rightarrow> Input \<Rightarrow> Coin option" where
  "getOutput t i = view t (prevout i)"

text \<open>
  Modelled from the spec: \<open>TX.getInputValue\<close>, \<open>TX.getOutputValue\<close>, \<open>TX.hasCoins\<close> and
  \<open>TX.getFee\<close> belong to the immutable transaction, which is not among the source files.
  The input value is the sum of the values of the coins the view resolves the inputs to
  (zero when an input is unresolved); the fee is input value minus output value, and
  zero if not all coins are available.
\<close>

definition hasCoins :: "MTX \<Rightarrow> bool" where
  "hasCoins t = (inputs t \<noteq> [] \<and> list_all (\<lambda>i. getOutput t i \<noteq> None) (inputs t))"

definition getInputValue :: "MTX \<Rightarrow> int" where
  "getInputValue t =
     (if list_all (\<lambda>i. getOutput t i \<noteq> None) (inputs t)
      then sum_list (map (\<lambda>i. case getOutput t i of Some c \<Rightarrow> value c | None \<Rightarrow> 0) (inputs t))
      else 0)"

definition getOutputValue :: "MTX \<Rightarrow> int" where
  "getOutputValue t = sum_list (map value (outputs t))"

definition MTX_getFee :: "MTX \<Rightarrow> int" where
  "MTX_getFee t = (if hasCoins t then getInputValue t - getOutputValue t else 0)"

text \<open>
  \<open>clone\<close> builds a new MTX from the fields \<open>fromOptions\<close> reads: version, inputs,
  outputs, locktime, changeIndex. The view of the clone is new and empty.
\<close>

definition clone :: "MTX \<Rightarrow> MTX" where
  "clone t = t\<lparr>view := Map.empty\<rparr>"

section \<open>The coin selector\<close>

text \<open>
  \<open>options.subtractFee\<close> is a boolean, an output index, one address, or a list of
  addresses.
\<close>

datatype subtract = SubFlag bool | SubIndex int | SubAddress address | SubAddresses "address list"

record options =
  selection :: "string option"
  subtractFee :: "subtract option"
  height :: "int option"
  confirmations :: "int option"
  hardFee :: "int option"
  rate :: "int option"
  maxFee :: "int option"
  round :: "bool option"
  changeAddress :: "address option"
  estimate :: "(script \<Rightarrow> int) option"

record CoinSelector =
  tx :: MTX
  coins :: "Coin list"
  outputValue :: int
  index :: nat
  chosen :: "Coin list"
  change :: int
  fee :: int
  selection :: string
  shouldSubtract :: bool
  subtractFee :: "subtract option"
  height :: int
  confirmations :: int
  hardFee :: int
  rate :: int
  maxFee :: int
  round :: bool
  changeAddress :: "address option"
  estimate :: "(script \<Rightarrow> int) option"

text \<open>An optional number of the options with its \<open>assert(options.x >= lo)\<close>.\<close>

definition checked :: "int option \<Rightarrow> int \<Rightarrow> int \<Rightarrow> string \<Rightarrow> error + int" where
  "checked v lo dflt msg =
     (case v of
        None \<Rightarrow> Inr dflt
      | Some x \<Rightarrow> if lo \<le> x then Inr x else Inl (AssertionError msg))"

definition CoinSelector_fromOptions :: "CoinSelector \<Rightarrow> options \<Rightarrow> error + CoinSelector" where
  "CoinSelector_fromOptions s opt =
     (let s1 = (case options.selection opt of
                  Some x \<Rightarrow> if x \<noteq> [] then s\<lparr>selection := x\<rparr> else s
                | None \<Rightarrow> s);
          s2 = (case options.subtractFee opt of
                  Some x \<Rightarrow> s1\<lparr>subtractFee := Some x, shouldSubtract := (x \<noteq> SubFlag False)\<rparr>
                | None \<Rightarrow> s1)
      in case checked (options.height opt) (-1) (CoinSelector.height s2) ''options.height >= -1'' of
           Inl e \<Rightarrow> Inl e
         | Inr h \<Rightarrow>
       (case checked (options.confirmations opt) (-1) (CoinSelector.confirmations s2)
               ''options.confirmations >= -1'' of
           Inl e \<Rightarrow> Inl e
         | Inr c \<Rightarrow>
       (case checked (options.hardFee opt) (-1) (CoinSelector.hardFee s2)
               ''options.hardFee >= -1'' of
           Inl e \<Rightarrow> Inl e
         | Inr hf \<Rightarrow>
       (case checked (options.rate opt) 0 (CoinSelector.rate s2) ''options.rate >= 0'' of
           Inl e \<Rightarrow> Inl e
         | Inr r \<Rightarrow>
       (case checked (options.maxFee opt) (-1) (CoinSelector.maxFee s2)
               ''options.maxFee >= -1'' of
           Inl e \<Rightarrow> Inl e
         | Inr mf \<Rightarrow>
           Inr (s2\<lparr>height := h, confirmations := c, hardFee := hf, rate := r, maxFee := mf,
                   round := (case options.round opt of Some b \<Rightarrow> b
                             | None \<Rightarrow> CoinSelector.round s2),
                   changeAddress := (case options.changeAddress opt of Some a \<Rightarrow> Some a
                             | None \<Rightarrow> CoinSelector.changeAddress s2),
                   estimate := (case options.estimate opt of Some f \<Rightarrow> Some f
                             | None \<Rightarrow> CoinSelector.estimate s2)\<rparr>))))))"

definition newCoinSelector :: "env \<Rightarrow> MTX \<Rightarrow> options option \<Rightarrow> error + CoinSelector" where
  "newCoinSelector E t opt =
     (let s = \<lparr>tx = clone t, coins = [], outputValue = 0, index = 0, chosen = [], change = 0,
               fee = 0, selection = ''age'', shouldSubtract = False, subtractFee = None,
               height = -1, confirmations = -1, hardFee = -1, rate = MIN_FEE E, maxFee = -1,
               round = False, changeAddress = None, estimate = None\<rparr>
      in case opt of None \<Rightarrow> Inr s | Some opt' \<Rightarrow> CoinSelector_fromOptions s opt')"

subsection \<open>Ordering the candidates\<close>

definition sortAge :: "Coin \<Rightarrow> Coin \<Rightarrow> int" where
  "sortAge a b =
     (let a' = (if Coin.height a = -1 then 2147483647 else Coin.height a);
          b' = (if Coin.height b = -1 then 2147483647 else Coin.height b)
      in a' - b')"

text \<open>
  \<open>Array.prototype.sort\<close> with a comparator that orders its arguments consistently, as
  an insertion sort that keeps equal elements in their order.
\<close>

fun insertBy :: "('a \<Rightarrow> 'a \<Rightarrow> int) \<Rightarrow> 'a \<Rightarrow> 'a list \<Rightarrow> 'a list" where
  "insertBy cmp x [] = [x]"
| "insertBy cmp x (y # ys) = (if cmp x y < 0 then x # y # ys else y # insertBy cmp x ys)"

definition arraySort :: "('a \<Rightarrow> 'a \<Rightarrow> int) \<Rightarrow> 'a list \<Rightarrow> 'a list" where
  "arraySort cmp xs = foldl (\<lambda>acc x. insertBy cmp x acc) [] xs"

definition init :: "env \<Rightarrow> CoinSelector \<Rightarrow> Coin list \<Rightarrow> error + CoinSelector" where
  "init E s cs =
     (let s1 = s\<lparr>coins := cs, outputValue := getOutputValue (tx s), index := 0, chosen := [],
                 change := 0, fee := 0, tx := (tx s)\<lparr>inputs := []\<rparr>\<rparr>
      in if selection s1 = ''all'' \<or> selection s1 = ''random''
         then Inr (s1\<lparr>coins := sortRandom E (coins s1)\<rparr>)
         else if selection s1 = ''age''
         then Inr (s1\<lparr>coins := arraySort sortAge (coins s1)\<rparr>)
         else Inl (FundingError (''Bad selection type: '' @ selection s1) None))"

subsection \<open>Target, fullness, spendability, fee\<close>

definition total :: "CoinSelector \<Rightarrow> int" where
  "total s = (if shouldSubtract s then outputValue s else outputValue s + fee s)"

definition isFull :: "CoinSelector \<Rightarrow> bool" where
  "isFull s = (getInputValue (tx s) \<ge> total s)"

definition isSpendable :: "env \<Rightarrow> CoinSelector \<Rightarrow> Coin \<Rightarrow> bool" where
  "isSpendable E s coin =
     (let maturity = COINBASE_MATURITY E
      in if CoinSelector.height s = -1 then True
         else if coinbase coin \<and> Coin.height coin = -1 then False
         else if coinbase coin \<and> CoinSelector.height s + 1 < Coin.height coin + maturity then False
         else if CoinSelector.confirmations s > 0
         then (if Coin.height coin = -1 then CoinSelector.confirmations s \<le> 0
               else let conf = CoinSelector.height s - Coin.height coin
                    in if conf < 0 then False
                       else if conf + 1 < CoinSelector.confirmations s then False
                       else True)
         else True)"

definition CoinSelector_getFee :: "env \<Rightarrow> CoinSelector \<Rightarrow> int \<Rightarrow> int" where
  "CoinSelector_getFee E s size' =
     (let fee' = (if CoinSelector.round s then getRoundFee E size' (CoinSelector.rate s)
                  else getMinFee E size' (CoinSelector.rate s))
      in if fee' > MAX_FEE E then MAX_FEE E else fee')"

subsection \<open>Size estimation\<close>

text \<open>
  \<open>(a / b) | 0\<close> on numbers far below \<open>2^31\<close>: the quotient truncated towards zero, and 0
  when the division gives no finite number.
\<close>

definition jsTrunc :: "int \<Rightarrow> int \<Rightarrow> int" where
  "jsTrunc a b = (if b = 0 then 0 else sgn a * sgn b * (\<bar>a\<bar> div \<bar>b\<bar>))"

definition inputSize :: "env \<Rightarrow> MTX \<Rightarrow> (script \<Rightarrow> int) option \<Rightarrow> Input \<Rightarrow> int" where
  "inputSize E t est inp =
     (case getOutput t inp of
        None \<Rightarrow> 110
      | Some coin \<Rightarrow>
          let prev = script coin; scale = WITNESS_SCALE_FACTOR E
          in if isPubkey prev then 1 + (1 + 73)
             else if isPubkeyhash prev then 1 + (1 + 73) + (1 + 33)
             else if isMultisig prev
             then (let size' = 1 + (1 + 73) * getSmall prev 0 in size' + sizeVarint E size')
             else if isWitnessPubkeyhash prev
             then jsTrunc (1 + (1 + 73) + (1 + 33) + scale - 1) scale
             else let size' = (case est of None \<Rightarrow> 0 | Some f \<Rightarrow> f prev)
                  in if est \<noteq> None \<and> size' \<noteq> -1 then size'
                     else if isScripthash prev then 2 + 257
                     else if isWitnessScripthash prev
                     then jsTrunc (size' + 1 + 257 + scale - 1) scale
                     else 110)"

definition estimateSize :: "env \<Rightarrow> MTX \<Rightarrow> (script \<Rightarrow> int) option \<Rightarrow> int" where
  "estimateSize E t est =
     4 + sizeVarint E (int (length (inputs t))) + int (length (inputs t)) * 40
       + sizeVarint E (int (length (outputs t)))
       + sum_list (map (getSize E) (outputs t))
       + 4
       + sum_list (map (inputSize E t est) (inputs t))"

subsection \<open>Accumulating coins\<close>

function CoinSelector_fund :: "env \<Rightarrow> CoinSelector \<Rightarrow> CoinSelector" where
  "CoinSelector_fund E s =
     (if index s < length (coins s)
      then (let coin = coins s ! index s;
                s1 = s\<lparr>index := index s + 1\<rparr>
            in if \<not> isSpendable E s1 coin then CoinSelector_fund E s1
               else let s2 = s1\<lparr>tx := addInput (tx s1) coin, chosen := chosen s1 @ [coin]\<rparr>
                    in if selection s2 = ''all'' then CoinSelector_fund E s2
                       else if isFull s2 then s2
                       else CoinSelector_fund E s2)
      else s)"
  by pat_completeness auto
termination
  by (relation "measure (\<lambda>(E, s). length (coins s) - index s)") auto

declare CoinSelector_fund.simps [simp del]

lemma CoinSelector_fund_coins: "coins (CoinSelector_fund E s) = coins s"
proof (induction E s rule: CoinSelector_fund.induct)
  case (1 E s)
  show ?case
    using "1.IH" by (subst CoinSelector_fund.simps) (simp add: Let_def)
qed

lemma CoinSelector_fund_index_le: "index s \<le> index (CoinSelector_fund E s)"
proof (induction E s rule: CoinSelector_fund.induct)
  case (1 E s)
  show ?case
    using "1.IH" by (subst CoinSelector_fund.simps) (fastforce simp add: Let_def)
qed

lemma CoinSelector_fund_index_less:
  "index s < length (coins s) \<Longrightarrow> index s < index (CoinSelector_fund E s)"
proof -
  assume a: "index s < length (coins s)"
  have "Suc (index s) \<le> index (CoinSelector_fund E s)"
    using a
      CoinSelector_fund_index_le [of "s\<lparr>index := index s + 1\<rparr>" E]
      CoinSelector_fund_index_le
        [of "s\<lparr>index := index s + 1,
               tx := addInput (tx s) (coins s ! index s),
               chosen := chosen s @ [coins s ! index s]\<rparr>" E]
    by (subst CoinSelector_fund.simps) (auto simp add: Let_def)
  then show ?thesis by simp
qed

subsection \<open>Hard fee, estimated fee, selection\<close>

definition ZERO_HASH160 :: bytes where
  "ZERO_HASH160 = replicate 20 0"

definition selectHard :: "env \<Rightarrow> CoinSelector \<Rightarrow> int \<Rightarrow> CoinSelector" where
  "selectHard E s fee' =
     (let s1 = s\<lparr>fee := fee'\<rparr>;
          s2 = (if fee s1 > MAX_FEE E then s1\<lparr>fee := MAX_FEE E\<rparr> else s1)
      in CoinSelector_fund E s2)"

text \<open>The \<open>do ... while\<close> loop of \<open>selectEstimate\<close>.\<close>

function selectLoop :: "env \<Rightarrow> CoinSelector \<Rightarrow> error + CoinSelector" where
  "selectLoop E s =
     (let size' = estimateSize E (tx s) (CoinSelector.estimate s);
          s1 = s\<lparr>fee := CoinSelector_getFee E s size'\<rparr>
      in if CoinSelector.maxFee s1 > 0 \<and> fee s1 > CoinSelector.maxFee s1
         then Inl (FundingError ''Fee is too high.'' None)
         else let s2 = (if \<not> isFull s1 then CoinSelector_fund E s1 else s1)
              in if \<not> isFull s2 \<and> index s2 < length (coins s2)
                 then selectLoop E s2
                 else Inr s2)"
  by pat_completeness auto
termination
proof (relation "measure (\<lambda>(E, s). length (coins s) - index s)", goal_cases)
  case 1
  show ?case by simp
next
  case (2 E s size' s1 s2)
  have c: "coins s2 = coins s"
    using 2 by (auto simp: CoinSelector_fund_coins)
  have nf: "\<not> isFull s1"
    using 2 by (auto split: if_splits)
  then have s2: "s2 = CoinSelector_fund E s1"
    using 2 by simp
  have lt: "index s2 < length (coins s)"
    using 2 c by simp
  have "index s < index s2"
  proof (cases "index s < length (coins s)")
    case True
    then show ?thesis
      using CoinSelector_fund_index_less [of s1 E] s2 2 by simp
  next
    case False
    then show ?thesis
      using CoinSelector_fund_index_le [of s1 E] s2 2 lt by simp
  qed
  then show ?case using lt c by simp
qed

declare selectLoop.simps [simp del]

text \<open>The fields of the selector that neither \<open>fund\<close> nor the fee loop writes.\<close>

definition settings where
  "settings s =
     (coins s, outputValue s, change s, selection s, shouldSubtract s,
      CoinSelector.subtractFee s, CoinSelector.height s, CoinSelector.confirmations s,
      CoinSelector.hardFee s, CoinSelector.rate s, CoinSelector.maxFee s,
      CoinSelector.round s, CoinSelector.changeAddress s, CoinSelector.estimate s)"

lemma CoinSelector_fund_settings: "settings (CoinSelector_fund E s) = settings s"
proof (induction E s rule: CoinSelector_fund.induct)
  case (1 E s)
  show ?case
    using "1.IH" by (subst CoinSelector_fund.simps) (simp add: Let_def settings_def)
qed


text \<open>One pass through the body of the loop: the new fee, then more coins if short.\<close>

definition loopFee :: "env \<Rightarrow> CoinSelector \<Rightarrow> CoinSelector" where
  "loopFee E s = s\<lparr>fee := CoinSelector_getFee E s (estimateSize E (tx s) (CoinSelector.estimate s))\<rparr>"

definition loopBody :: "env \<Rightarrow> CoinSelector \<Rightarrow> CoinSelector" where
  "loopBody E s = (if \<not> isFull (loopFee E s) then CoinSelector_fund E (loopFee E s) else loopFee E s)"

lemma selectLoop_unfold:
  "selectLoop E s =
     (if CoinSelector.maxFee s > 0 \<and> fee (loopFee E s) > CoinSelector.maxFee s
      then Inl (FundingError ''Fee is too high.'' None)
      else if \<not> isFull (loopBody E s) \<and> index (loopBody E s) < length (coins (loopBody E s))
      then selectLoop E (loopBody E s)
      else Inr (loopBody E s))"
  by (subst selectLoop.simps) (simp add: Let_def loopBody_def loopFee_def)

lemma selectLoop_induct:
  assumes "\<And>E s. (\<not> (CoinSelector.maxFee s > 0 \<and> fee (loopFee E s) > CoinSelector.maxFee s) \<Longrightarrow>
             \<not> isFull (loopBody E s) \<Longrightarrow> index (loopBody E s) < length (coins (loopBody E s)) \<Longrightarrow>
             P E (loopBody E s)) \<Longrightarrow> P E s"
  shows "P E s"
proof (induction E s rule: selectLoop.induct)
  case (1 E s)
  show ?case
  proof (rule assms)
    assume a: "\<not> (CoinSelector.maxFee s > 0 \<and> fee (loopFee E s) > CoinSelector.maxFee s)"
      and b: "\<not> isFull (loopBody E s)"
      and c: "index (loopBody E s) < length (coins (loopBody E s))"
    let ?s1 = "s\<lparr>fee := CoinSelector_getFee E s (estimateSize E (tx s) (CoinSelector.estimate s))\<rparr>"
    let ?s2 = "if \<not> isFull ?s1 then CoinSelector_fund E ?s1 else ?s1"
    have a': "\<not> (0 < CoinSelector.maxFee ?s1 \<and> CoinSelector.maxFee ?s1 < fee ?s1)"
      using a unfolding loopFee_def by simp
    have bc: "\<not> isFull ?s2 \<and> index ?s2 < length (coins ?s2)"
      using b c unfolding loopBody_def loopFee_def by blast
    have "P E ?s2"
      by (rule "1.IH" [OF refl refl a' refl bc])
    then show "P E (loopBody E s)"
      unfolding loopBody_def loopFee_def .
  qed
qed

lemma loopBody_settings: "settings (loopBody E s) = settings s"
  by (simp add: loopBody_def CoinSelector_fund_settings) (simp add: loopFee_def settings_def)

lemma selectLoop_settings:
  "selectLoop E s = Inr s' \<Longrightarrow> settings s' = settings s"
proof (induction E s rule: selectLoop_induct)
  case (1 E s)
  show ?case
  proof (cases "\<not> isFull (loopBody E s) \<and> index (loopBody E s) < length (coins (loopBody E s))")
    case True
    with "1.prems" have nh: "\<not> (CoinSelector.maxFee s > 0 \<and> fee (loopFee E s) > CoinSelector.maxFee s)"
      and r: "selectLoop E (loopBody E s) = Inr s'"
      by (subst (asm) selectLoop_unfold, simp split: if_splits)+
    from "1.IH" [OF nh _ _ r] True show ?thesis
      by (simp add: loopBody_settings)
  next
    case False
    with "1.prems" have "s' = loopBody E s"
      by (subst (asm) selectLoop_unfold) (simp split: if_splits)
    then show ?thesis by (simp add: loopBody_settings)
  qed
qed

lemma selectLoop_done:
  "selectLoop E s = Inr s' \<Longrightarrow> isFull s' \<or> index s' \<ge> length (coins s')"
proof (induction E s rule: selectLoop_induct)
  case (1 E s)
  show ?case
  proof (cases "\<not> isFull (loopBody E s) \<and> index (loopBody E s) < length (coins (loopBody E s))")
    case True
    with "1.prems" have nh: "\<not> (CoinSelector.maxFee s > 0 \<and> fee (loopFee E s) > CoinSelector.maxFee s)"
      and r: "selectLoop E (loopBody E s) = Inr s'"
      by (subst (asm) selectLoop_unfold, simp split: if_splits)+
    from "1.IH" [OF nh _ _ r] True show ?thesis
      by simp
  next
    case False
    with "1.prems" have "s' = loopBody E s"
      by (subst (asm) selectLoop_unfold) (simp split: if_splits)
    then show ?thesis using False by auto
  qed
qed


definition selectEstimate :: "env \<Rightarrow> CoinSelector \<Rightarrow> int \<Rightarrow> error + CoinSelector" where
  "selectEstimate E s fee' =
     (let s1 = CoinSelector_fund E (s\<lparr>fee := fee'\<rparr>);
          dummy = \<lparr>value = 0,
                   script = (case CoinSelector.changeAddress s1 of
                               Some a \<Rightarrow> fromAddress E a
                             | None \<Rightarrow> fromPubkeyhash (Buf ZERO_HASH160))\<rparr>
      in case addOutput (tx s1) dummy of
           Inl e \<Rightarrow> Inl e
         | Inr t \<Rightarrow> selectLoop E (s1\<lparr>tx := t\<rparr>))"

text \<open>The branch of \<open>select\<close> between \<open>init\<close> and the final check.\<close>

definition selectFee :: "env \<Rightarrow> CoinSelector \<Rightarrow> error + CoinSelector" where
  "selectFee E s =
     (if CoinSelector.hardFee s \<noteq> -1 then Inr (selectHard E s (CoinSelector.hardFee s))
      else selectEstimate E s (MIN_FEE E))"

definition select :: "env \<Rightarrow> CoinSelector \<Rightarrow> Coin list \<Rightarrow> error + CoinSelector" where
  "select E s cs =
     (case init E s cs of
        Inl e \<Rightarrow> Inl e
      | Inr s0 \<Rightarrow>
          (case selectFee E s0 of
             Inl e \<Rightarrow> Inl e
           | Inr s1 \<Rightarrow>
               if \<not> isFull s1
               then Inl (FundingError ''Not enough funds.''
                          (Some (getInputValue (tx s1), total s1)))
               else Inr (s1\<lparr>change := getInputValue (tx s1) - total s1\<rparr>)))"

section \<open>Fee subtraction and funding of the transaction\<close>

text \<open>
  The address hashes \<open>subtractFee\<close> compares with: none when the selector is not an
  address or a list of addresses; otherwise the hashes of the addresses that have one (an
  empty list still counts as a list).
\<close>

definition subtractAddrs :: "env \<Rightarrow> subtract option \<Rightarrow> bytes list option" where
  "subtractAddrs E sel =
     (case sel of
        Some (SubAddress a) \<Rightarrow> Some (List.map_filter (addressHash E) [a])
      | Some (SubAddresses as) \<Rightarrow> Some (List.map_filter (addressHash E) as)
      | _ \<Rightarrow> None)"

text \<open>The \<open>continue\<close> tests of the loop: with addresses, an output must hash to one.\<close>

definition matches :: "env \<Rightarrow> bytes list option \<Rightarrow> Output \<Rightarrow> bool" where
  "matches E addrs out =
     (case addrs of
        None \<Rightarrow> True
      | Some as \<Rightarrow> (case scriptHash E (script out) of None \<Rightarrow> False | Some h \<Rightarrow> h \<in> set as))"

text \<open>
  The loop over the outputs: the outputs after the first matching output that can pay
  the fee has been reduced, or \<open>None\<close> when the loop runs to the end.
\<close>

fun subtractLoop :: "env \<Rightarrow> int \<Rightarrow> bytes list option \<Rightarrow> Output list \<Rightarrow> Output list option" where
  "subtractLoop E fee' addrs [] = None"
| "subtractLoop E fee' addrs (out # outs) =
     (let min' = fee' + getDustThreshold E (script out)
      in if \<not> matches E addrs out then map_option ((#) out) (subtractLoop E fee' addrs outs)
         else if value out \<ge> min' then Some (out\<lparr>value := value out - fee'\<rparr> # outs)
         else map_option ((#) out) (subtractLoop E fee' addrs outs))"

text \<open>
  \<open>subtractFee\<close> returns the transaction as the call leaves it, and the error it threw,
  if any. \<open>subtractIndex\<close> is the selector when \<open>typeof index === 'number'\<close>.
\<close>

definition subtractIndex :: "subtract option \<Rightarrow> int option" where
  "subtractIndex sel = (case sel of Some (SubIndex i) \<Rightarrow> Some i | _ \<Rightarrow> None)"

definition MTX_subtractFee :: "env \<Rightarrow> MTX \<Rightarrow> int \<Rightarrow> subtract option \<Rightarrow> MTX \<times> error option" where
  "MTX_subtractFee E t fee' sel =
     (case subtractIndex sel of
        Some i \<Rightarrow>
          if \<not> (0 \<le> i \<and> i < int (length (outputs t)))
          then (t, Some (Error ''Subtraction index does not exist.''))
          else let out = outputs t ! nat i;
                   min' = fee' + getDustThreshold E (script out)
               in if value out < min' then (t, Some (Error ''Could not subtract fee.''))
                  else (t\<lparr>outputs := (outputs t)[nat i := out\<lparr>value := value out - fee'\<rparr>]\<rparr>, None)
      | None \<Rightarrow>
          (case subtractLoop E fee' (subtractAddrs E sel) (outputs t) of
             Some outs \<Rightarrow> (t\<lparr>outputs := outs\<rparr>, None)
           | None \<Rightarrow> (t, Some (Error ''Could not subtract fee.''))))"

definition selectCoins :: "env \<Rightarrow> MTX \<Rightarrow> Coin list \<Rightarrow> options option \<Rightarrow> error + CoinSelector" where
  "selectCoins E t cs opt =
     (case newCoinSelector E t opt of
        Inl e \<Rightarrow> Inl e
      | Inr selector \<Rightarrow> select E selector cs)"

text \<open>
  \<open>fund\<close> returns the funded transaction together with the selector. Its three leading
  assertions and the two that compare the fee are error results like any other throw.
  \<open>fundChange\<close> is the end of \<open>fund\<close>, from the reading of the change output on.
\<close>

definition fundChange :: "env \<Rightarrow> MTX \<Rightarrow> CoinSelector \<Rightarrow> error + MTX \<times> CoinSelector" where
  "fundChange E t3 sel =
     (let change' = last (outputs t3)
      in if isDust E change' (MIN_RELAY E)
         then (let t4 = t3\<lparr>outputs := butlast (outputs t3), changeIndex := -1\<rparr>
               in if MTX_getFee t4 = fee sel + change sel then Inr (t4, sel)
                  else Inl (AssertionError ''getFee() == select.fee + select.change''))
         else (let t4 = t3\<lparr>changeIndex := int (length (outputs t3)) - 1\<rparr>
               in if MTX_getFee t4 = fee sel then Inr (t4, sel)
                  else Inl (AssertionError ''getFee() == select.fee'')))"

definition MTX_fund :: "env \<Rightarrow> MTX \<Rightarrow> Coin list \<Rightarrow> options option \<Rightarrow> error + MTX \<times> CoinSelector" where
  "MTX_fund E t cs opt =
     (case opt of
        None \<Rightarrow> Inl (AssertionError ''Options are required.'')
      | Some opt' \<Rightarrow>
          (if options.changeAddress opt' = None
           then Inl (AssertionError ''Change address is required.'')
           else if inputs t \<noteq> [] then Inl (AssertionError ''TX is already filled.'')
           else (case selectCoins E t cs opt of
                   Inl e \<Rightarrow> Inl e
                 | Inr sel \<Rightarrow>
                     (case (if shouldSubtract sel
                            then MTX_subtractFee E (foldl addInput t (chosen sel)) (fee sel)
                                   (CoinSelector.subtractFee sel)
                            else (foldl addInput t (chosen sel), None)) of
                        (t2, Some e) \<Rightarrow> Inl e
                      | (t2, None) \<Rightarrow>
                          (case addOutput t2
                                  \<lparr>value = change sel,
                                   script = (case CoinSelector.changeAddress sel of
                                               Some a \<Rightarrow> fromAddress E a | None \<Rightarrow> [])\<rparr> of
                             Inl e \<Rightarrow> Inl e
                           | Inr t3 \<Rightarrow> fundChange E t3 sel)))))"

text \<open>\<open>err instanceof FundingError\<close>.\<close>

definition isFundingError :: "error \<Rightarrow> bool" where
  "isFundingError e = (case e of FundingError msg amounts \<Rightarrow> True | _ \<Rightarrow> False)"

text \<open>An output that the loop of \<open>subtractFee\<close> would reduce: it matches and can pay.\<close>

definition absorbs :: "env \<Rightarrow> int \<Rightarrow> bytes list option \<Rightarrow> Output \<Rightarrow> bool" where
  "absorbs E fee' addrs out =
     (matches E addrs out \<and> value out \<ge> fee' + getDustThreshold E (script out))"

section \<open>Templating and signing of inputs\<close>

text \<open>
  A key ring: its public key, its private key, the hash of its public key
  (\<open>getKeyHash()\<close>), and the redeem scripts it knows by their hash (\<open>getRedeem(hash)\<close>,
  \<open>None\<close> for \<open>null\<close>).
\<close>

record KeyRing =
  publicKey :: bytes
  privateKey :: bytes
  getKeyHash :: bytes
  getRedeem :: "jsval \<Rightarrow> script option"

text \<open>
  Taken from modules that are not among the sources, as parameters: the serialisation
  of a script and its inverse, the signature digest (\<open>TX.signatureHash\<close>), the signing
  primitive (\<open>Script.sign\<close>) and the sighash type \<open>ALL\<close>.
\<close>

record crypto =
  toRaw :: "script \<Rightarrow> bytes"
  fromRaw :: "bytes \<Rightarrow> script"
  signatureHash :: "MTX \<Rightarrow> int \<Rightarrow> script \<Rightarrow> int \<Rightarrow> nat \<Rightarrow> nat \<Rightarrow> bytes"
  sign :: "bytes \<Rightarrow> bytes \<Rightarrow> nat \<Rightarrow> bytes"
  hashType_ALL :: nat

text \<open>
  Modelled from the spec: \<open>util.indexOf\<close>, \<open>Script.indexOf\<close> and
  \<open>Script.getRedeem\<close> are not among the source files. \<open>util.indexOf\<close> is the position of
  the first Buffer of the array that equals the data, or -1; the redeem script of a
  script or witness is the script its last item serialises, if that item is data.
\<close>

fun util_indexOf :: "jsval list \<Rightarrow> bytes \<Rightarrow> int" where
  "util_indexOf [] d = -1"
| "util_indexOf (x # xs) d =
     (if x = Buf d then 0
      else (let r = util_indexOf xs d in if r = -1 then -1 else r + 1))"

definition toArray :: "script \<Rightarrow> jsval list" where
  "toArray s = map opGet s"

definition indexOf :: "script \<Rightarrow> bytes \<Rightarrow> int" where
  "indexOf s d = util_indexOf (toArray s) d"

definition vectorRedeem :: "crypto \<Rightarrow> script \<Rightarrow> script option" where
  "vectorRedeem C v =
     (if v = [] then None
      else (case last v of Push b \<Rightarrow> Some (fromRaw C b) | _ \<Rightarrow> None))"

subsection \<open>Templating\<close>

text \<open>\<open>scriptVector\<close> returns its result and the vector as it leaves it.\<close>

definition scriptVector :: "script \<Rightarrow> script \<Rightarrow> KeyRing \<Rightarrow> bool \<times> script" where
  "scriptVector prev vector ring =
     (if isPubkey prev
      then (if get prev 0 \<noteq> Buf (publicKey ring) then (False, vector)
            else (True, vset vector 0 OP_0))
      else if isPubkeyhash prev
      then (if get prev 2 \<noteq> Buf (getKeyHash ring) then (False, vector)
            else (True, vset (vset vector 0 OP_0) 1 (Push (publicKey ring))))
      else if isMultisig prev
      then (if indexOf prev (publicKey ring) = -1 then (False, vector)
            else (let v0 = vset vector 0 OP_0;
                      n = getSmall prev (int (length prev) - 2)
                  in (True, foldl (\<lambda>v i. vset v (i + 1) OP_0) v0 [0 ..< nat n])))
      else (False, vector))"

text \<open>
  The body of \<open>scriptInput\<close> on the input and the previous script, after the two
  assertions: its result and the input as it leaves it.
\<close>

definition templateInput :: "crypto \<Rightarrow> Input \<Rightarrow> script \<Rightarrow> KeyRing \<Rightarrow> bool \<times> Input" where
  "templateInput C inp prev ring =
     (if in_script inp \<noteq> [] \<or> witness inp \<noteq> [] then (True, inp)
      else if isScripthash prev
      then (case getRedeem ring (get prev 1) of
              None \<Rightarrow> (False, inp)
            | Some redeem \<Rightarrow>
                if isProgram redeem
                then (if isWitnessScripthash redeem
                      then (case getRedeem ring (get redeem 1) of
                              None \<Rightarrow> (False, inp)
                            | Some prev' \<Rightarrow>
                                (case scriptVector prev' (witness inp) ring of
                                   (False, w) \<Rightarrow> (False, inp\<lparr>witness := w\<rparr>)
                                 | (True, w) \<Rightarrow>
                                     (True, inp\<lparr>witness := push w (Push (toRaw C prev')),
                                                in_script := push (in_script inp)
                                                               (Push (toRaw C redeem))\<rparr>)))
                      else if isWitnessPubkeyhash redeem
                      then (case scriptVector (fromPubkeyhash (Buf (getKeyHash ring)))
                                   (witness inp) ring of
                              (False, w) \<Rightarrow> (False, inp\<lparr>witness := w\<rparr>)
                            | (True, w) \<Rightarrow>
                                (True, inp\<lparr>witness := w,
                                           in_script := push (in_script inp)
                                                          (Push (toRaw C redeem))\<rparr>))
                      else (False, inp))
                else (case scriptVector redeem (in_script inp) ring of
                        (False, v) \<Rightarrow> (False, inp\<lparr>in_script := v\<rparr>)
                      | (True, v) \<Rightarrow>
                          (True, inp\<lparr>in_script := push v (Push (toRaw C redeem))\<rparr>)))
      else if isProgram prev
      then (if isWitnessScripthash prev
            then (case getRedeem ring (get prev 1) of
                    None \<Rightarrow> (False, inp)
                  | Some redeem \<Rightarrow>
                      (case scriptVector redeem (witness inp) ring of
                         (False, w) \<Rightarrow> (False, inp\<lparr>witness := w\<rparr>)
                       | (True, w) \<Rightarrow>
                           (True, inp\<lparr>witness := push w (Push (toRaw C redeem))\<rparr>)))
            else if isWitnessPubkeyhash prev
            then (case scriptVector (fromPubkeyhash (get prev 1)) (witness inp) ring of
                    (ok, w) \<Rightarrow> (ok, inp\<lparr>witness := w\<rparr>))
            else (False, inp))
      else (case scriptVector prev (in_script inp) ring of
              (ok, v) \<Rightarrow> (ok, inp\<lparr>in_script := v\<rparr>)))"

definition scriptInput ::
  "crypto \<Rightarrow> MTX \<Rightarrow> int \<Rightarrow> Coin option \<Rightarrow> KeyRing \<Rightarrow> error + bool \<times> MTX" where
  "scriptInput C t i coin ring =
     (if \<not> (0 \<le> i \<and> i < int (length (inputs t)))
      then Inl (AssertionError ''Input does not exist.'')
      else (case coin of
              None \<Rightarrow> Inl (AssertionError ''No coin passed.'')
            | Some c \<Rightarrow>
                (case templateInput C (inputs t ! nat i) (script c) ring of
                   (ok, inp) \<Rightarrow> Inr (ok, t\<lparr>inputs := (inputs t)[nat i := inp]\<rparr>))))"

subsection \<open>Signing\<close>

text \<open>The keys of a multisig script, as \<open>signVector\<close> collects them.\<close>

definition scriptKeys :: "script \<Rightarrow> jsval list" where
  "scriptKeys prev = map (\<lambda>i. get prev (int i)) [1 ..< length prev - 2]"

text \<open>The number of signatures among the slots \<open>1 .. length - 1\<close> of a vector.\<close>

definition countSignatures :: "script \<Rightarrow> int" where
  "countSignatures vector =
     foldl (\<lambda>total i. if isSignature (get vector (int i)) then total + 1 else total)
       0 [1 ..< length vector]"

text \<open>The loop that removes the empty slots, from the last index down to 1.\<close>

definition removeEmpty :: "script \<Rightarrow> script" where
  "removeEmpty vector =
     foldl (\<lambda>v i. if getSmall v (int i) = 0 then remove v i else v)
       vector (rev [1 ..< length vector])"

text \<open>
  \<open>signVector\<close> returns its result and the vector as it leaves it, or the error it
  throws.
\<close>

definition signMultisig :: "script \<Rightarrow> script \<Rightarrow> bytes \<Rightarrow> KeyRing \<Rightarrow> error + bool \<times> script" where
  "signMultisig prev vector sig ring =
     (let keys = scriptKeys prev;
          m = getSmall prev 0;
          n = getSmall prev (int (length prev) - 2)
      in if getSmall vector 0 \<noteq> 0 then Inl (Error ''Input has not been templated.'')
         else if int (length vector) - 1 > n then Inr (False, vector)
         else let total = countSignatures vector
              in if total = m \<and> int (length vector) - 1 = m then Inr (True, vector)
                 else let v1 = vector @ replicate (nat (n - (int (length vector) - 1))) OP_0;
                          keyIndex = util_indexOf keys (publicKey ring)
                      in if keyIndex = -1 then Inr (False, v1)
                         else let keyIndex' = keyIndex + 1;
                                  place = (keyIndex' < int (length v1) \<and> total < m \<and>
                                           getSmall v1 keyIndex' = 0);
                                  v2 = (if place then vset v1 (nat keyIndex') (Push sig) else v1);
                                  total2 = (if place then total + 1 else total)
                              in if total2 \<ge> m
                                 then (let v3 = removeEmpty v2;
                                           v4 = (pop ^^ nat (total2 - m)) v3
                                       in if int (length v4) - 1 \<noteq> m
                                          then Inl (AssertionError ''vector.length - 1 === m'')
                                          else Inr (True, v4))
                                 else Inr (False, v2))"

definition signVector :: "script \<Rightarrow> script \<Rightarrow> bytes \<Rightarrow> KeyRing \<Rightarrow> error + bool \<times> script" where
  "signVector prev vector sig ring =
     (if isPubkey prev
      then (if Buf (publicKey ring) \<noteq> get prev 0 then Inr (False, vector)
            else if isSignature (get vector 0) then Inr (True, vector)
            else if getSmall vector 0 \<noteq> 0 then Inl (Error ''Input has not been templated.'')
            else Inr (True, vset vector 0 (Push sig)))
      else if isPubkeyhash prev
      then (if Buf (getKeyHash ring) \<noteq> get prev 2 then Inr (False, vector)
            else if isSignature (get vector 0) then Inr (True, vector)
            else if \<not> isKey (get vector 1) then Inl (Error ''Input has not been templated.'')
            else Inr (True, vset vector 0 (Push sig)))
      else if isMultisig prev then signMultisig prev vector sig ring
      else Inr (False, vector))"

text \<open>
  What \<open>signInput\<close> has settled when it calls \<open>signature\<close>: the script, the value and
  the version it passes to the digest, and the vector it will fill.
\<close>

record signing =
  sg_prev :: script
  sg_value :: int
  sg_witness :: bool
  sg_redeem :: bool
  sg_version :: nat

definition signPrepare :: "crypto \<Rightarrow> Input \<Rightarrow> Coin \<Rightarrow> error + signing" where
  "signPrepare C inp coin =
     (let st0 = \<lparr>sg_prev = script coin, sg_value = 0, sg_witness = False, sg_redeem = False,
                  sg_version = 0\<rparr>
      in case (if isScripthash (sg_prev st0)
               then (case vectorRedeem C (in_script inp) of
                       None \<Rightarrow> Inl (Error ''Input has not been templated.'')
                     | Some p \<Rightarrow> Inr (st0\<lparr>sg_prev := p, sg_redeem := True\<rparr>))
               else Inr st0) of
           Inl e \<Rightarrow> Inl e
         | Inr st1 \<Rightarrow>
             if isWitnessScripthash (sg_prev st1)
             then (case vectorRedeem C (witness inp) of
                     None \<Rightarrow> Inl (Error ''Input has not been templated.'')
                   | Some p \<Rightarrow>
                       Inr (st1\<lparr>sg_prev := p, sg_witness := True, sg_redeem := True,
                                sg_version := 1\<rparr>))
             else if isWitnessPubkeyhash (sg_prev st1)
             then Inr (st1\<lparr>sg_prev := fromPubkeyhash (get (sg_prev st1) 1), sg_witness := True,
                           sg_redeem := False, sg_version := 1\<rparr>)
             else Inr st1)"

definition signature ::
  "crypto \<Rightarrow> MTX \<Rightarrow> int \<Rightarrow> script \<Rightarrow> int \<Rightarrow> bytes \<Rightarrow> nat option \<Rightarrow> nat \<Rightarrow> bytes" where
  "signature C t i prev value' key type' version' =
     (let ty = (case type' of None \<Rightarrow> hashType_ALL C | Some x \<Rightarrow> x);
          hash' = signatureHash C t i prev value' ty version'
      in sign C hash' key ty)"

definition signInput ::
  "crypto \<Rightarrow> MTX \<Rightarrow> int \<Rightarrow> Coin option \<Rightarrow> KeyRing \<Rightarrow> nat option \<Rightarrow> error + bool \<times> MTX" where
  "signInput C t i coin ring type' =
     (if \<not> (0 \<le> i \<and> i < int (length (inputs t)))
      then Inl (AssertionError ''Input does not exist.'')
      else (case coin of
              None \<Rightarrow> Inl (AssertionError ''No coin passed.'')
            | Some c \<Rightarrow>
                (let inp = inputs t ! nat i
                 in case signPrepare C inp c of
                      Inl e \<Rightarrow> Inl e
                    | Inr st \<Rightarrow>
                        (let sig = signature C t i (sg_prev st) (sg_value st) (privateKey ring)
                                     type' (sg_version st);
                             vector = (if sg_witness st then witness inp else in_script inp);
                             put = (\<lambda>v. if sg_witness st then inp\<lparr>witness := v\<rparr>
                                        else inp\<lparr>in_script := v\<rparr>);
                             store = (\<lambda>v. t\<lparr>inputs := (inputs t)[nat i := put v]\<rparr>)
                         in if sg_redeem st
                            then (case signVector (sg_prev st) (pop vector) sig ring of
                                    Inl e \<Rightarrow> Inl e
                                  | Inr (result, v) \<Rightarrow>
                                      Inr (result, store (push v (last vector))))
                            else (case signVector (sg_prev st) vector sig ring of
                                    Inl e \<Rightarrow> Inl e
                                  | Inr (result, v) \<Rightarrow> Inr (result, store v))))))"

subsection \<open>Multisig vectors by the keys that have signed\<close>

text \<open>
  The slots of a multisig vector over the keys \<open>K\<close> when the keys in \<open>S\<close> have signed:
  each key signs at the position where it first occurs among the keys; \<open>partialVector\<close> is
  the vector with all \<open>n\<close> slots, \<open>finalVector\<close> the one with the empty slots removed.
\<close>

definition keyPos :: "bytes list \<Rightarrow> bytes \<Rightarrow> nat" where
  "keyPos K k = nat (util_indexOf (map Buf K) k)"

definition slot :: "bytes list \<Rightarrow> (bytes \<Rightarrow> bytes) \<Rightarrow> bytes set \<Rightarrow> nat \<Rightarrow> opcode" where
  "slot K sg S j = (if K ! j \<in> S \<and> keyPos K (K ! j) = j then Push (sg (K ! j)) else OP_0)"

definition partialVector :: "bytes list \<Rightarrow> (bytes \<Rightarrow> bytes) \<Rightarrow> bytes set \<Rightarrow> script" where
  "partialVector K sg S = OP_0 # map (slot K sg S) [0 ..< length K]"

definition finalVector :: "bytes list \<Rightarrow> (bytes \<Rightarrow> bytes) \<Rightarrow> bytes set \<Rightarrow> script" where
  "finalVector K sg S =
     OP_0 # filter (\<lambda>x. opSmall x \<noteq> 0) (map (slot K sg S) [0 ..< length K])"

text \<open>Signing with a list of keys, one after the other, each with its own signature.\<close>

fun signAll ::
  "script \<Rightarrow> (bytes \<Rightarrow> bytes) \<Rightarrow> (bytes \<Rightarrow> KeyRing) \<Rightarrow> bytes list \<Rightarrow> script \<Rightarrow> error + script" where
  "signAll prev sg rings [] v = Inr v"
| "signAll prev sg rings (k # ks) v =
     (case signVector prev v (sg k) (rings k) of
        Inl e \<Rightarrow> Inl e
      | Inr (ok, v') \<Rightarrow> signAll prev sg rings ks v')"

section \<open>Example data\<close>

text \<open>
  A concrete environment and concrete coins, on which the theorems below are
  instantiated: fee 10 per byte of size at rate 10000, dust below 546, pay-to-pubkey-hash
  addresses, and a \<open>sortRandom\<close> that happens to reverse the list.
\<close>

definition ex_env :: env where
  "ex_env = \<lparr>MIN_FEE = 10000, MAX_FEE = 10000000, MIN_RELAY = 10000, COINBASE_MATURITY = 100,
            WITNESS_SCALE_FACTOR = 4,
            getMinFee = (\<lambda>size' rate'. (rate' * size') div 1000),
            getRoundFee = (\<lambda>size' rate'. rate' * ((size' + 999) div 1000)),
            sizeVarint = (\<lambda>n. if n < 253 then 1 else if n \<le> 65535 then 3 else 5),
            getSize = (\<lambda>out. 9 + int (length (script out))),
            getDustThreshold = (\<lambda>sc. 546),
            isDust = (\<lambda>out r. value out < 546),
            fromAddress = (\<lambda>a. fromPubkeyhash (Buf a)),
            addressHash = (\<lambda>a. Some a),
            scriptHash = (\<lambda>sc. case sc of [a, b, Push h, d, e] \<Rightarrow> Some h | _ \<Rightarrow> None),
            sortRandom = rev\<rparr>"

definition ex_addr :: address where
  "ex_addr = replicate 20 7"

definition ex_coin :: "nat \<Rightarrow> int \<Rightarrow> int \<Rightarrow> bool \<Rightarrow> Coin" where
  "ex_coin i v h cb =
     \<lparr>value = v, script = fromPubkeyhash (Buf ex_addr), hash = replicate 32 9, index = i,
      height = h, coinbase = cb\<rparr>"

definition ex_coins :: "Coin list" where
  "ex_coins = [ex_coin 0 20000 1 False, ex_coin 1 20000 2 False, ex_coin 2 20000 3 False]"

definition ex_tx :: MTX where
  "ex_tx = \<lparr>version = 1, inputs = [],
            outputs = [\<lparr>value = 50000, script = fromPubkeyhash (Buf ex_addr)\<rparr>],
            locktime = 0, changeIndex = -1, view = Map.empty\<rparr>"

text \<open>The selector of \<open>ex_tx\<close> for a hard fee of 1000, otherwise with its defaults.\<close>

definition ex_selector :: CoinSelector where
  "ex_selector =
     \<lparr>tx = clone ex_tx, coins = [], outputValue = 0, index = 0, chosen = [], change = 0,
      fee = 0, selection = ''age'', shouldSubtract = False, subtractFee = None,
      height = -1, confirmations = -1, hardFee = 1000, rate = 10000, maxFee = -1,
      round = False, changeAddress = None, estimate = None\<rparr>"

text \<open>Options for the example transaction: a hard fee of 1000 and a change address.\<close>

definition ex_options :: options where
  "ex_options =
     \<lparr>options.selection = None, options.subtractFee = None, options.height = None,
      options.confirmations = None, options.hardFee = Some 1000, options.rate = None,
      options.maxFee = None, options.round = None, options.changeAddress = Some ex_addr,
      options.estimate = None\<rparr>"

text \<open>Three keys, a 2-of-3 multisig script over them, their key rings and signatures.\<close>

definition ex_key :: "nat \<Rightarrow> bytes" where
  "ex_key i = replicate 33 i"

definition ex_multisig :: script where
  "ex_multisig = [Op 82, Push (ex_key 1), Push (ex_key 2), Push (ex_key 3), Op 83, Op 174]"

definition ex_ring :: "bytes \<Rightarrow> KeyRing" where
  "ex_ring k = \<lparr>publicKey = k, privateKey = k, getKeyHash = take 20 k,
               getRedeem = (\<lambda>h. None)\<rparr>"

definition ex_sig :: "bytes \<Rightarrow> bytes" where
  "ex_sig k = replicate 70 (hd k)"

text \<open>An example transaction with one empty input that spends a multisig coin.\<close>

definition ex_crypto :: crypto where
  "ex_crypto =
     \<lparr>toRaw = (\<lambda>s. concat (map (\<lambda>x. case x of Op v \<Rightarrow> [v] | Push b \<Rightarrow> length b # b
                                          | Hole \<Rightarrow> []) s)),
      fromRaw = (\<lambda>b. [Push b]),
      signatureHash = (\<lambda>t i prev v ty ver. [nat v, ty, ver]),
      sign = (\<lambda>h k ty. replicate 70 (hd k) @ [ty]),
      hashType_ALL = 1\<rparr>"

definition ex_multisig_coin :: Coin where
  "ex_multisig_coin =
     \<lparr>value = 50000, script = ex_multisig, hash = replicate 32 9, index = 0, height = 1,
      coinbase = False\<rparr>"

definition ex_spend :: MTX where
  "ex_spend = \<lparr>version = 1, inputs = [fromCoin ex_multisig_coin], outputs = [], locktime = 0,
               changeIndex = -1, view = Map.empty\<rparr>"

text \<open>A witness-pubkey-hash coin of value 50000 and the input that spends it.\<close>

definition ex_wpkh_coin :: Coin where
  "ex_wpkh_coin =
     \<lparr>value = 50000, script = [Op 0, Push (replicate 20 7)], hash = replicate 32 9, index = 1,
      height = 1, coinbase = False\<rparr>"

section \<open>Properties of the coin selector\<close>

lemma settings_updates:
  "settings (s\<lparr>fee := f\<rparr>) = settings s"
  "settings (s\<lparr>tx := t\<rparr>) = settings s"
  by (simp_all add: settings_def)

lemma selectHard_settings: "settings (selectHard E s f) = settings s"
  by (simp add: selectHard_def Let_def CoinSelector_fund_settings settings_updates)

lemma selectEstimate_settings: "selectEstimate E s f = Inr s1 \<Longrightarrow> settings s1 = settings s"
  by (auto simp: selectEstimate_def Let_def addOutput_def CoinSelector_fund_settings
        settings_updates dest!: selectLoop_settings split: if_splits)

lemma selectFee_settings: "selectFee E s0 = Inr s1 \<Longrightarrow> settings s1 = settings s0"
  by (auto simp: selectFee_def selectHard_settings selectEstimate_settings split: if_splits)


lemma init_result:
  "init E s cs = Inr s0 \<Longrightarrow>
     outputValue s0 = getOutputValue (tx s) \<and> shouldSubtract s0 = shouldSubtract s \<and>
     selection s0 = selection s \<and> CoinSelector.height s0 = CoinSelector.height s \<and>
     CoinSelector.confirmations s0 = CoinSelector.confirmations s \<and>
     CoinSelector.hardFee s0 = CoinSelector.hardFee s \<and> chosen s0 = [] \<and> index s0 = 0 \<and>
     inputs (tx s0) = [] \<and>
     coins s0 = (if selection s = ''age'' then arraySort sortAge cs else sortRandom E cs)"
  by (auto simp: init_def Let_def split: if_splits)


lemma isSpendable_settings:
  "settings s = settings s' \<Longrightarrow> isSpendable E s c = isSpendable E s' c"
  by (simp add: settings_def isSpendable_def)

lemma settings_index_update: "settings (s\<lparr>index := i\<rparr>) = settings s"
  by (simp add: settings_def)

text \<open>The coins \<open>fund\<close> has looked at between two positions, filtered by spendability.\<close>

definition taken :: "env \<Rightarrow> CoinSelector \<Rightarrow> nat \<Rightarrow> nat \<Rightarrow> Coin list" where
  "taken E s i j = filter (isSpendable E s) (take (j - i) (drop i (coins s)))"

lemma taken_settings: "settings s = settings s' \<Longrightarrow> taken E s i j = taken E s' i j"
  using isSpendable_settings [of s s' E]
  by (simp add: taken_def settings_def cong: filter_cong)

lemma taken_step:
  "i < length (coins s) \<Longrightarrow> Suc i \<le> j \<Longrightarrow>
   taken E s i j = (if isSpendable E s (coins s ! i) then [coins s ! i] else []) @ taken E s (Suc i) j"
proof -
  assume a: "i < length (coins s)" and b: "Suc i \<le> j"
  have d: "drop i (coins s) = coins s ! i # drop (Suc i) (coins s)"
    using a by (simp add: Cons_nth_drop_Suc)
  obtain k where k: "j - i = Suc k" "j - Suc i = k"
    using b by (cases "j - i") auto
  show ?thesis
    by (simp add: taken_def d k)
qed

lemma taken_append:
  "i \<le> j \<Longrightarrow> j \<le> k \<Longrightarrow> taken E s i j @ taken E s j k = taken E s i k"
proof -
  assume a: "i \<le> j" and b: "j \<le> k"
  have "take (k - i) (drop i (coins s)) =
        take (j - i) (drop i (coins s)) @ take (k - j) (drop (j - i) (drop i (coins s)))"
    using a b take_add [of "j - i" "k - j" "drop i (coins s)"] by simp
  then show ?thesis
    using a by (simp add: taken_def)
qed

lemma CoinSelector_fund_chosen:
  "chosen (CoinSelector_fund E s) = chosen s @ taken E s (index s) (index (CoinSelector_fund E s)) \<and>
   inputs (tx (CoinSelector_fund E s)) =
     inputs (tx s) @ map fromCoin (taken E s (index s) (index (CoinSelector_fund E s)))"
proof (induction E s rule: CoinSelector_fund.induct)
  case (1 E s)
  show ?case
  proof (cases "index s < length (coins s)")
    case False
    then show ?thesis
      by (subst (1 2 3 4) CoinSelector_fund.simps) (simp add: taken_def)
  next
    case True
    let ?c = "coins s ! index s"
    let ?s1 = "s\<lparr>index := index s + 1\<rparr>"
    let ?s2 = "?s1\<lparr>tx := addInput (tx ?s1) ?c, chosen := chosen ?s1 @ [?c]\<rparr>"
    have sp: "isSpendable E ?s1 ?c = isSpendable E s ?c"
      by (simp add: isSpendable_def)
    show ?thesis
    proof (cases "isSpendable E s ?c")
      case False
      then have eq: "CoinSelector_fund E s = CoinSelector_fund E ?s1"
        using True sp by (subst CoinSelector_fund.simps) (simp add: Let_def)
      have le: "Suc (index s) \<le> index (CoinSelector_fund E ?s1)"
        using CoinSelector_fund_index_le [of ?s1 E] by simp
      have t: "taken E ?s1 (Suc (index s)) (index (CoinSelector_fund E ?s1)) =
               taken E s (Suc (index s)) (index (CoinSelector_fund E ?s1))"
        by (rule taken_settings) (simp add: settings_def)
      from "1.IH"(1) [OF True refl refl] False sp
      show ?thesis
        using taken_step [OF True le, of E] t False by (simp add: eq)
    next
      case sp': True
      show ?thesis
      proof (cases "selection s \<noteq> ''all'' \<and> isFull ?s2")
        case True
        then have eq: "CoinSelector_fund E s = ?s2"
          using \<open>index s < length (coins s)\<close> sp sp'
          by (subst CoinSelector_fund.simps) (simp add: Let_def)
        have "taken E s (index s) (Suc (index s)) = [?c]"
          using \<open>index s < length (coins s)\<close> sp'
          by (simp add: taken_def take_Suc_conv_app_nth Cons_nth_drop_Suc [symmetric])
        then show ?thesis
          by (simp add: eq addInput_def)
      next
        case False
        then have eq: "CoinSelector_fund E s = CoinSelector_fund E ?s2"
          using \<open>index s < length (coins s)\<close> sp sp'
          by (subst CoinSelector_fund.simps) (auto simp add: Let_def)
        have le: "Suc (index s) \<le> index (CoinSelector_fund E ?s2)"
          using CoinSelector_fund_index_le [of ?s2 E] by simp
        have t: "taken E ?s2 (Suc (index s)) (index (CoinSelector_fund E ?s2)) =
               taken E s (Suc (index s)) (index (CoinSelector_fund E ?s2))"
          by (rule taken_settings) (simp add: settings_def)
        have ih: "chosen (CoinSelector_fund E ?s2) =
            chosen ?s2 @ taken E ?s2 (index ?s2) (index (CoinSelector_fund E ?s2)) \<and>
            inputs (tx (CoinSelector_fund E ?s2)) =
            inputs (tx ?s2) @ map fromCoin (taken E ?s2 (index ?s2) (index (CoinSelector_fund E ?s2)))"
        proof (cases "selection s = ''all''")
          case True
          from "1.IH"(2) [OF \<open>index s < length (coins s)\<close> refl refl _ refl] sp sp' True
          show ?thesis by simp
        next
          case False
          with \<open>\<not> (selection s \<noteq> ''all'' \<and> isFull ?s2)\<close> have nf: "\<not> isFull ?s2" by simp
          from "1.IH"(3) [OF \<open>index s < length (coins s)\<close> refl refl _ refl _ nf] sp sp' False
          show ?thesis by simp
        qed
        show ?thesis
          using ih taken_step [OF \<open>index s < length (coins s)\<close> le, of E] t sp'
          by (simp add: eq addInput_def)
      qed
    qed
  qed
qed

lemma CoinSelector_fund_all:
  "selection s = ''all'' \<Longrightarrow> index s \<le> length (coins s) \<Longrightarrow>
   index (CoinSelector_fund E s) = length (coins s)"
proof (induction E s rule: CoinSelector_fund.induct)
  case (1 E s)
  show ?case
  proof (cases "index s < length (coins s)")
    case False
    with "1.prems" show ?thesis
      by (subst CoinSelector_fund.simps) simp
  next
    case True
    let ?c = "coins s ! index s"
    let ?s1 = "s\<lparr>index := index s + 1\<rparr>"
    let ?s2 = "?s1\<lparr>tx := addInput (tx ?s1) ?c, chosen := chosen ?s1 @ [?c]\<rparr>"
    show ?thesis
    proof (cases "isSpendable E ?s1 ?c")
      case False
      from "1.IH"(1) [OF True refl refl False] "1.prems" True
      have "index (CoinSelector_fund E ?s1) = length (coins s)" by simp
      then show ?thesis
        using True False by (subst CoinSelector_fund.simps) (simp add: Let_def)
    next
      case sp: True
      from "1.IH"(2) [OF True refl refl _ refl] sp "1.prems" True
      have "index (CoinSelector_fund E ?s2) = length (coins s)" by simp
      then show ?thesis
        using True sp "1.prems" by (subst CoinSelector_fund.simps) (simp add: Let_def)
    qed
  qed
qed

lemma loopBody_chosen:
  "chosen (loopBody E s) = chosen s @ taken E s (index s) (index (loopBody E s)) \<and>
   inputs (tx (loopBody E s)) =
     inputs (tx s) @ map fromCoin (taken E s (index s) (index (loopBody E s))) \<and>
   index s \<le> index (loopBody E s)"
proof -
  have t: "\<And>i j. taken E (loopFee E s) i j = taken E s i j"
    by (rule taken_settings) (simp add: loopFee_def settings_def)
  show ?thesis
    using CoinSelector_fund_chosen [of E "loopFee E s"] CoinSelector_fund_index_le [of "loopFee E s" E]
    by (simp add: loopBody_def t) (simp add: loopFee_def taken_def)
qed

lemma selectLoop_chosen:
  "selectLoop E s = Inr s' \<Longrightarrow>
   chosen s' = chosen s @ taken E s (index s) (index s') \<and>
   inputs (tx s') = inputs (tx s) @ map fromCoin (taken E s (index s) (index s')) \<and>
   index s \<le> index s'"
proof (induction E s rule: selectLoop_induct)
  case (1 E s)
  show ?case
  proof (cases "\<not> isFull (loopBody E s) \<and> index (loopBody E s) < length (coins (loopBody E s))")
    case True
    with "1.prems" have nh: "\<not> (CoinSelector.maxFee s > 0 \<and> fee (loopFee E s) > CoinSelector.maxFee s)"
      and r: "selectLoop E (loopBody E s) = Inr s'"
      by (subst (asm) selectLoop_unfold, simp split: if_splits)+
    have ih: "chosen s' = chosen (loopBody E s) @ taken E (loopBody E s) (index (loopBody E s)) (index s') \<and>
       inputs (tx s') = inputs (tx (loopBody E s)) @
          map fromCoin (taken E (loopBody E s) (index (loopBody E s)) (index s')) \<and>
       index (loopBody E s) \<le> index s'"
      using "1.IH" [OF nh _ _ r] True by simp
    have t: "\<And>i j. taken E (loopBody E s) i j = taken E s i j"
      by (rule taken_settings) (simp add: loopBody_settings)
    show ?thesis
      using ih loopBody_chosen [of E s]
        taken_append [of "index s" "index (loopBody E s)" "index s'" E s, symmetric]
      by (simp add: t)
  next
    case False
    with "1.prems" have "s' = loopBody E s"
      by (subst (asm) selectLoop_unfold) (simp split: if_splits)
    then show ?thesis using loopBody_chosen [of E s] by simp
  qed
qed

lemma selectLoop_index:
  "selectLoop E s = Inr s' \<Longrightarrow> index s = length (coins s) \<Longrightarrow> index s' = length (coins s)"
proof -
  assume r: "selectLoop E s = Inr s'" and i: "index s = length (coins s)"
  have "loopBody E s = loopFee E s \<or> loopBody E s = CoinSelector_fund E (loopFee E s)"
    by (simp add: loopBody_def)
  moreover have "CoinSelector_fund E (loopFee E s) = loopFee E s"
    using i by (subst CoinSelector_fund.simps) (simp add: loopFee_def)
  ultimately have b: "loopBody E s = loopFee E s" by auto
  then have "index (loopBody E s) = length (coins (loopBody E s))"
    using i by (simp add: loopFee_def)
  with r have "s' = loopBody E s"
    by (subst (asm) selectLoop_unfold) (simp split: if_splits)
  then show ?thesis using b i by (simp add: loopFee_def)
qed

lemma selectFee_chosen:
  "selectFee E s0 = Inr s1 \<Longrightarrow>
   chosen s1 = chosen s0 @ taken E s0 (index s0) (index s1) \<and>
   inputs (tx s1) = inputs (tx s0) @ map fromCoin (taken E s0 (index s0) (index s1)) \<and>
   index s0 \<le> index s1"
proof (cases "CoinSelector.hardFee s0 \<noteq> -1")
  case True
  assume "selectFee E s0 = Inr s1"
  with True obtain f where s1: "s1 = CoinSelector_fund E (s0\<lparr>fee := f\<rparr>)"
    by (auto simp: selectFee_def selectHard_def Let_def split: if_splits)
  have t: "\<And>i j. taken E (s0\<lparr>fee := f\<rparr>) i j = taken E s0 i j"
    by (rule taken_settings) (simp add: settings_updates)
  show ?thesis
    using CoinSelector_fund_chosen [of E "s0\<lparr>fee := f\<rparr>"]
      CoinSelector_fund_index_le [of "s0\<lparr>fee := f\<rparr>" E]
    by (simp add: s1 t)
next
  case False
  assume "selectFee E s0 = Inr s1"
  with False obtain t where
    r: "selectLoop E ((CoinSelector_fund E (s0\<lparr>fee := MIN_FEE E\<rparr>))
              \<lparr>tx := (tx (CoinSelector_fund E (s0\<lparr>fee := MIN_FEE E\<rparr>)))
                 \<lparr>outputs := outputs (tx (CoinSelector_fund E (s0\<lparr>fee := MIN_FEE E\<rparr>))) @ [t]\<rparr>\<rparr>) = Inr s1"
    by (auto simp: selectFee_def selectEstimate_def Let_def addOutput_def)
  let ?sa = "CoinSelector_fund E (s0\<lparr>fee := MIN_FEE E\<rparr>)"
  let ?sb = "?sa\<lparr>tx := (tx ?sa)\<lparr>outputs := outputs (tx ?sa) @ [t]\<rparr>\<rparr>"
  have ta: "\<And>i j. taken E (s0\<lparr>fee := MIN_FEE E\<rparr>) i j = taken E s0 i j"
    by (rule taken_settings) (simp add: settings_updates)
  have tb: "\<And>i j. taken E ?sb i j = taken E s0 i j"
    by (rule taken_settings) (simp add: settings_updates CoinSelector_fund_settings)
  have a: "chosen ?sa = chosen s0 @ taken E s0 (index s0) (index ?sa) \<and>
     inputs (tx ?sa) = inputs (tx s0) @ map fromCoin (taken E s0 (index s0) (index ?sa)) \<and>
     index s0 \<le> index ?sa"
    using CoinSelector_fund_chosen [of E "s0\<lparr>fee := MIN_FEE E\<rparr>"]
      CoinSelector_fund_index_le [of "s0\<lparr>fee := MIN_FEE E\<rparr>" E]
    by (simp add: ta)
  have b: "chosen s1 = chosen ?sb @ taken E s0 (index ?sb) (index s1) \<and>
     inputs (tx s1) = inputs (tx ?sb) @ map fromCoin (taken E s0 (index ?sb) (index s1)) \<and>
     index ?sb \<le> index s1"
    using selectLoop_chosen [OF r] by (simp only: tb)
  show ?thesis
    using a b taken_append [of "index s0" "index ?sa" "index s1" E s0, symmetric]
    by simp
qed

lemma select_chosen:
  "select E s cs = Inr s' \<Longrightarrow>
   coins s' = (if selection s = ''age'' then arraySort sortAge cs else sortRandom E cs) \<and>
   chosen s' = filter (isSpendable E s) (take (index s') (coins s')) \<and>
   inputs (tx s') = map fromCoin (chosen s')"
proof -
  assume ok: "select E s cs = Inr s'"
  then obtain s0 s1 where i: "init E s cs = Inr s0" and f: "selectFee E s0 = Inr s1"
    and s': "s' = s1\<lparr>change := getInputValue (tx s1) - total s1\<rparr>"
    by (auto simp: select_def split: sum.splits if_splits)
  note i' = init_result [OF i]
  have st: "settings s1 = settings s0" by (rule selectFee_settings [OF f])
  then have c: "coins s1 = coins s0" by (simp add: settings_def)
  have sp: "isSpendable E s0 = isSpendable E s"
    using i' by (intro ext) (simp add: isSpendable_def)
  show ?thesis
    using selectFee_chosen [OF f] i' c sp by (simp add: s' taken_def)
qed


















lemma selectFee_all:
  "selection s0 = ''all'' \<Longrightarrow> index s0 \<le> length (coins s0) \<Longrightarrow> selectFee E s0 = Inr s1 \<Longrightarrow>
   index s1 = length (coins s0)"
proof (cases "CoinSelector.hardFee s0 \<noteq> -1")
  case True
  assume a: "selection s0 = ''all''" "index s0 \<le> length (coins s0)" "selectFee E s0 = Inr s1"
  with True obtain f where s1: "s1 = CoinSelector_fund E (s0\<lparr>fee := f\<rparr>)"
    by (auto simp: selectFee_def selectHard_def Let_def split: if_splits)
  show ?thesis
    using CoinSelector_fund_all [of "s0\<lparr>fee := f\<rparr>" E] a by (simp add: s1)
next
  case False
  assume a: "selection s0 = ''all''" "index s0 \<le> length (coins s0)" "selectFee E s0 = Inr s1"
  with False obtain t where
    r: "selectLoop E ((CoinSelector_fund E (s0\<lparr>fee := MIN_FEE E\<rparr>))
              \<lparr>tx := (tx (CoinSelector_fund E (s0\<lparr>fee := MIN_FEE E\<rparr>)))
                 \<lparr>outputs := outputs (tx (CoinSelector_fund E (s0\<lparr>fee := MIN_FEE E\<rparr>))) @ [t]\<rparr>\<rparr>) = Inr s1"
    by (auto simp: selectFee_def selectEstimate_def Let_def addOutput_def)
  have i: "index (CoinSelector_fund E (s0\<lparr>fee := MIN_FEE E\<rparr>)) = length (coins s0)"
    using CoinSelector_fund_all [of "s0\<lparr>fee := MIN_FEE E\<rparr>" E] a by simp
  show ?thesis
    using selectLoop_index [OF r] i by (simp add: CoinSelector_fund_coins)
qed

text \<open>
  Claim C8 (as amended). Selection strategy \<open>all\<close> sorts the candidates with the random
  comparator, as \<open>random\<close> does, so their order is whatever \<open>sortRandom\<close> leaves. It
  consumes every spendable candidate as an input, whether or not the target is already
  covered, and still succeeds only when the input value reaches the target.
\<close>

theorem select_all_consumes:
  assumes "selection s = ''all''" and "select E s cs = Inr s'"
  shows "coins s' = sortRandom E cs \<and>
         chosen s' = filter (isSpendable E s) (sortRandom E cs) \<and>
         inputs (tx s') = map fromCoin (chosen s') \<and>
         total s' \<le> getInputValue (tx s') \<and>
         (mset (sortRandom E cs) = mset cs \<longrightarrow>
            mset (chosen s') = filter_mset (isSpendable E s) (mset cs))"
proof -
  from assms(2) obtain s0 s1 where i: "init E s cs = Inr s0" and f: "selectFee E s0 = Inr s1"
    and full: "isFull s1" and s': "s' = s1\<lparr>change := getInputValue (tx s1) - total s1\<rparr>"
    by (auto simp: select_def split: sum.splits if_splits)
  note i' = init_result [OF i]
  have idx: "index s' = length (coins s0)"
    using selectFee_all [OF _ _ f] i' assms(1) by (simp add: s')
  have c: "coins s' = sortRandom E cs" and ch: "chosen s' = filter (isSpendable E s) (take (index s') (coins s'))"
    and inp: "inputs (tx s') = map fromCoin (chosen s')"
    using select_chosen [OF assms(2)] assms(1) by simp_all
  have c0: "coins s0 = sortRandom E cs"
    using i' assms(1) by simp
  have ch': "chosen s' = filter (isSpendable E s) (sortRandom E cs)"
    using ch idx c c0 by simp
  have "mset (sortRandom E cs) = mset cs \<longrightarrow>
            mset (chosen s') = filter_mset (isSpendable E s) (mset cs)"
    by (simp add: ch')
  moreover have "total s' \<le> getInputValue (tx s')"
    using full by (auto simp add: s' isFull_def total_def)
  ultimately show ?thesis using c ch' inp by blast
qed

theorem select_all_consumes_witness:
  "\<exists>s'. select ex_env (ex_selector\<lparr>selection := ''all''\<rparr>) ex_coins = Inr s' \<and>
        chosen s' = rev ex_coins \<and> mset (chosen s') = mset ex_coins \<and>
        total s' \<le> getInputValue (tx s')"
proof -
  have a: "(case select ex_env (ex_selector\<lparr>selection := ''all''\<rparr>) ex_coins of
              Inr s' \<Rightarrow> True | Inl e \<Rightarrow> False)"
    by code_simp
  then obtain s' where s': "select ex_env (ex_selector\<lparr>selection := ''all''\<rparr>) ex_coins = Inr s'"
    by (auto split: sum.splits)
  have sel: "selection (ex_selector\<lparr>selection := ''all''\<rparr>) = ''all''" by simp
  have sr: "sortRandom ex_env ex_coins = rev ex_coins"
    by (simp add: ex_env_def)
  have sp: "filter (isSpendable ex_env (ex_selector\<lparr>selection := ''all''\<rparr>)) (rev ex_coins) = rev ex_coins"
    by (simp add: isSpendable_def ex_selector_def)
  from select_all_consumes [OF sel s'] sr sp
  have "chosen s' = rev ex_coins \<and> total s' \<le> getInputValue (tx s')"
    by simp
  then show ?thesis using s' by (intro exI [of _ s']) simp
qed

text \<open>
  The claim as stated fails: with strategy \<open>all\<close> the candidates do not keep their
  original order. Here the random comparator leaves three coins reversed.
\<close>

theorem select_all_order_counterexample:
  "case select ex_env (ex_selector\<lparr>selection := ''all''\<rparr>) ex_coins of
     Inr s' \<Rightarrow> map Coin.index (coins s') = [2, 1, 0] \<and> map Coin.index ex_coins = [0, 1, 2] \<and>
               map Coin.index (chosen s') = [2, 1, 0]
   | Inl e \<Rightarrow> False"
  by code_simp








section \<open>Properties of fee subtraction and funding\<close>

lemma subtractLoop_None:
  "subtractLoop E f a outs = None \<longleftrightarrow> (\<forall>out \<in> set outs. \<not> absorbs E f a out)"
  by (induction outs) (auto simp: absorbs_def Let_def)

lemma subtractLoop_Some:
  "subtractLoop E f a outs = Some outs' \<Longrightarrow>
   \<exists>i < length outs. outs' = outs[i := (outs ! i)\<lparr>value := value (outs ! i) - f\<rparr>] \<and>
       absorbs E f a (outs ! i) \<and> (\<forall>j < i. \<not> absorbs E f a (outs ! j))"
proof (induction outs arbitrary: outs')
  case Nil
  then show ?case by simp
next
  case (Cons out outs)
  show ?case
  proof (cases "absorbs E f a out")
    case True
    with Cons.prems have "outs' = out\<lparr>value := value out - f\<rparr> # outs"
      by (auto simp: absorbs_def Let_def)
    with True show ?thesis
      by (intro exI [of _ 0]) simp
  next
    case False
    with Cons.prems obtain r where r: "subtractLoop E f a outs = Some r" and o: "outs' = out # r"
      by (auto simp: absorbs_def Let_def split: if_splits)
    from Cons.IH [OF r] obtain i where i: "i < length outs"
        "r = outs[i := (outs ! i)\<lparr>value := value (outs ! i) - f\<rparr>]"
        "absorbs E f a (outs ! i)" "\<forall>j < i. \<not> absorbs E f a (outs ! j)"
      by blast
    have "\<forall>j < Suc i. \<not> absorbs E f a ((out # outs) ! j)"
      using i(4) False by (auto simp: less_Suc_eq_0_disj)
    with i o show ?thesis
      by (intro exI [of _ "Suc i"]) simp
  qed
qed

text \<open>
  Claim C10 (as amended). \<open>subtractFee\<close> reduces exactly one output by the fee and leaves
  the others unchanged: the output at the selected index, or else the first output that
  matches the addresses (if any were given) and whose value minus the fee still clears
  its dust threshold; the reduced output stays at or above its dust threshold. When the
  index does not exist, the indexed output cannot pay, or no output can absorb the fee, it
  throws a plain \<open>Error\<close>, which is not a funding error, and no output has been changed.
\<close>

theorem subtractFee_result:
  "MTX_subtractFee E t f sel = (t', err) \<Longrightarrow>
   (err = None \<longrightarrow>
      (\<exists>i < length (outputs t).
         t' = t\<lparr>outputs := (outputs t)[i := (outputs t ! i)\<lparr>value := value (outputs t ! i) - f\<rparr>]\<rparr> \<and>
         value (outputs t' ! i) \<ge> getDustThreshold E (script (outputs t' ! i)) \<and>
         (\<forall>k. subtractIndex sel = Some k \<longrightarrow> int i = k) \<and>
         (subtractIndex sel = None \<longrightarrow>
            absorbs E f (subtractAddrs E sel) (outputs t ! i) \<and>
            (\<forall>j < i. \<not> absorbs E f (subtractAddrs E sel) (outputs t ! j))))) \<and>
   (\<forall>e. err = Some e \<longrightarrow>
      t' = t \<and> \<not> isFundingError e \<and>
      (e = Error ''Could not subtract fee.'' \<or> e = Error ''Subtraction index does not exist.'') \<and>
      (\<forall>k. subtractIndex sel = Some k \<longrightarrow>
         \<not> (0 \<le> k \<and> k < int (length (outputs t))) \<or>
         value (outputs t ! nat k) < f + getDustThreshold E (script (outputs t ! nat k))) \<and>
      (subtractIndex sel = None \<longrightarrow>
         (\<forall>out \<in> set (outputs t). \<not> absorbs E f (subtractAddrs E sel) out)))"
proof -
  assume r: "MTX_subtractFee E t f sel = (t', err)"
  show ?thesis
  proof (cases "subtractIndex sel")
    case (Some k)
    let ?out = "outputs t ! nat k"
    show ?thesis
    proof (cases "0 \<le> k \<and> k < int (length (outputs t))")
      case False
      with r Some have "t' = t" "err = Some (Error ''Subtraction index does not exist.'')"
        by (simp_all add: MTX_subtractFee_def)
      with False Some show ?thesis by (simp add: isFundingError_def)
    next
      case inrange: True
      show ?thesis
      proof (cases "value ?out < f + getDustThreshold E (script ?out)")
        case True
        with r Some inrange have "t' = t" "err = Some (Error ''Could not subtract fee.'')"
          by (simp_all add: MTX_subtractFee_def Let_def)
        with True Some show ?thesis by (simp add: isFundingError_def)
      next
        case False
        with r Some inrange
        have t': "t' = t\<lparr>outputs := (outputs t)[nat k := ?out\<lparr>value := value ?out - f\<rparr>]\<rparr>"
          and e: "err = None"
          by (simp_all add: MTX_subtractFee_def Let_def)
        have 1: "nat k < length (outputs t)" using inrange by linarith
        have 2: "value (outputs t' ! nat k) \<ge> getDustThreshold E (script (outputs t' ! nat k))"
          using False 1 by (simp add: t')
        have 3: "int (nat k) = k" using inrange by simp
        have "\<exists>i < length (outputs t).
           t' = t\<lparr>outputs := (outputs t)[i := (outputs t ! i)\<lparr>value := value (outputs t ! i) - f\<rparr>]\<rparr> \<and>
           value (outputs t' ! i) \<ge> getDustThreshold E (script (outputs t' ! i)) \<and>
           (\<forall>k. subtractIndex sel = Some k \<longrightarrow> int i = k) \<and>
           (subtractIndex sel = None \<longrightarrow>
              absorbs E f (subtractAddrs E sel) (outputs t ! i) \<and>
              (\<forall>j < i. \<not> absorbs E f (subtractAddrs E sel) (outputs t ! j)))"
          using 1 2 3 t' Some by (intro exI [of _ "nat k"]) simp
        then show ?thesis
          using e by simp
      qed
    qed
  next
    case None
    from None r have r': "(case subtractLoop E f (subtractAddrs E sel) (outputs t) of
             Some outs \<Rightarrow> (t\<lparr>outputs := outs\<rparr>, None)
           | None \<Rightarrow> (t, Some (Error ''Could not subtract fee.''))) = (t', err)"
      by (simp add: MTX_subtractFee_def)
    show ?thesis
    proof (cases "subtractLoop E f (subtractAddrs E sel) (outputs t)")
      case n: None
      with r' have "t' = t" "err = Some (Error ''Could not subtract fee.'')" by simp_all
      then show ?thesis
        using n None by (simp add: isFundingError_def subtractLoop_None)
    next
      case (Some outs)
      with r' have t': "t' = t\<lparr>outputs := outs\<rparr>" "err = None" by simp_all
      from subtractLoop_Some [OF Some] obtain i where i: "i < length (outputs t)"
        "outs = (outputs t)[i := (outputs t ! i)\<lparr>value := value (outputs t ! i) - f\<rparr>]"
        "absorbs E f (subtractAddrs E sel) (outputs t ! i)"
        "\<forall>j < i. \<not> absorbs E f (subtractAddrs E sel) (outputs t ! j)"
        by blast
      have d: "value (outputs t' ! i) \<ge> getDustThreshold E (script (outputs t' ! i))"
        using i by (simp add: t' absorbs_def)
      have "\<exists>i < length (outputs t).
         t' = t\<lparr>outputs := (outputs t)[i := (outputs t ! i)\<lparr>value := value (outputs t ! i) - f\<rparr>]\<rparr> \<and>
         value (outputs t' ! i) \<ge> getDustThreshold E (script (outputs t' ! i)) \<and>
         (\<forall>k. subtractIndex sel = Some k \<longrightarrow> int i = k) \<and>
         (subtractIndex sel = None \<longrightarrow>
            absorbs E f (subtractAddrs E sel) (outputs t ! i) \<and>
            (\<forall>j < i. \<not> absorbs E f (subtractAddrs E sel) (outputs t ! j)))"
        using i d None t' by (intro exI [of _ i]) simp
      then show ?thesis
        using t' by simp
    qed
  qed
qed

theorem subtractFee_result_witness:
  "\<exists>t'. MTX_subtractFee ex_env ex_tx 5000 (Some (SubIndex 0)) = (t', None) \<and>
         map value (outputs t') = [45000] \<and>
         value (outputs t' ! 0) \<ge> getDustThreshold ex_env (script (outputs t' ! 0))"
proof -
  have a: "snd (MTX_subtractFee ex_env ex_tx 5000 (Some (SubIndex 0))) = None"
    by code_simp
  then obtain t' where t': "MTX_subtractFee ex_env ex_tx 5000 (Some (SubIndex 0)) = (t', None)"
    by (cases "MTX_subtractFee ex_env ex_tx 5000 (Some (SubIndex 0))") simp
  have o: "outputs ex_tx = [\<lparr>value = 50000, script = fromPubkeyhash (Buf ex_addr)\<rparr>]"
    by (simp add: ex_tx_def)
  from subtractFee_result [OF t'] o
  have "map value (outputs t') = [45000] \<and>
         value (outputs t' ! 0) \<ge> getDustThreshold ex_env (script (outputs t' ! 0))"
    by (auto simp: subtractIndex_def)
  with t' show ?thesis by (intro exI [of _ t']) simp
qed

text \<open>
  The claim as stated fails on the kind of the error: an output of 50000 cannot pay a fee
  of 50000 and stay above dust, and what is thrown is a plain \<open>Error\<close>.
\<close>

theorem subtractFee_error_counterexample:
  "case MTX_subtractFee ex_env ex_tx 50000 (Some (SubIndex 0)) of
     (t', Some e) \<Rightarrow> e = Error ''Could not subtract fee.'' \<and> \<not> isFundingError e \<and>
                      outputs t' = outputs ex_tx
   | (t', None) \<Rightarrow> False"
  by code_simp


text \<open>
  Claim C3. Every successful \<open>MTX.fund\<close> appends a change output to the outputs left
  by the fee subtraction (if any). If that output is dust it is removed again, the change
  index is -1 and the fee of the transaction is the fee of the selector plus the dropped
  change; otherwise the change index points to the appended change output, the last one,
  and the fee of the transaction is exactly the fee of the selector.
\<close>

theorem fund_change:
  "MTX_fund E t cs opt = Inr (t', sel) \<Longrightarrow>
   selectCoins E t cs opt = Inr sel \<and>
   (\<exists>t2. (if shouldSubtract sel
           then MTX_subtractFee E (foldl addInput t (chosen sel)) (fee sel)
                  (CoinSelector.subtractFee sel)
           else (foldl addInput t (chosen sel), None)) = (t2, None) \<and>
      (let change' = \<lparr>value = change sel,
                       script = (case CoinSelector.changeAddress sel of
                                   Some a \<Rightarrow> fromAddress E a | None \<Rightarrow> [])\<rparr>
       in if isDust E change' (MIN_RELAY E)
          then outputs t' = outputs t2 \<and> changeIndex t' = -1 \<and>
               MTX_getFee t' = fee sel + change sel
          else outputs t' = outputs t2 @ [change'] \<and>
               changeIndex t' = int (length (outputs t')) - 1 \<and>
               outputs t' ! nat (changeIndex t') = change' \<and>
               MTX_getFee t' = fee sel))"
proof -
  assume ok: "MTX_fund E t cs opt = Inr (t', sel)"
  let ?sub = "if shouldSubtract sel
           then MTX_subtractFee E (foldl addInput t (chosen sel)) (fee sel)
                  (CoinSelector.subtractFee sel)
           else (foldl addInput t (chosen sel), None)"
  let ?change = "\<lparr>value = change sel,
                       script = (case CoinSelector.changeAddress sel of
                                   Some a \<Rightarrow> fromAddress E a | None \<Rightarrow> [])\<rparr>"
  from ok obtain sel' where sc: "selectCoins E t cs opt = Inr sel'"
    by (auto simp: MTX_fund_def split: option.splits if_splits sum.splits)
  from ok sc obtain t2 t3 where sub: "(if shouldSubtract sel'
           then MTX_subtractFee E (foldl addInput t (chosen sel')) (fee sel')
                  (CoinSelector.subtractFee sel')
           else (foldl addInput t (chosen sel'), None)) = (t2, None)"
    and ao: "addOutput t2 \<lparr>value = change sel',
                       script = (case CoinSelector.changeAddress sel' of
                                   Some a \<Rightarrow> fromAddress E a | None \<Rightarrow> [])\<rparr> = Inr t3"
    and fc: "fundChange E t3 sel' = Inr (t', sel)"
    by (auto simp: MTX_fund_def split: option.splits if_splits sum.splits prod.splits)
  from fc have s: "sel' = sel"
    by (auto simp: fundChange_def Let_def split: if_splits)
  from ao have t3: "t3 = t2\<lparr>outputs := outputs t2 @ [?change]\<rparr>"
    by (auto simp: addOutput_def s split: if_splits)
  have body: "if isDust E ?change (MIN_RELAY E)
          then outputs t' = outputs t2 \<and> changeIndex t' = -1 \<and>
               MTX_getFee t' = fee sel + change sel
          else outputs t' = outputs t2 @ [?change] \<and>
               changeIndex t' = int (length (outputs t')) - 1 \<and>
               outputs t' ! nat (changeIndex t') = ?change \<and>
               MTX_getFee t' = fee sel"
    using fc by (auto simp: fundChange_def Let_def t3 s split: if_splits)
  have sc': "selectCoins E t cs opt = Inr sel"
    using sc s by simp
  have sub': "?sub = (t2, None)"
    using sub unfolding s .
  show ?thesis
    unfolding Let_def using sc' sub' body by blast
qed

theorem fund_change_witness:
  "(\<exists>t' sel. MTX_fund ex_env ex_tx ex_coins (Some ex_options) = Inr (t', sel) \<and>
       map value (outputs t') = [50000, 9000] \<and> changeIndex t' = 1 \<and>
       MTX_getFee t' = fee sel \<and> fee sel = 1000) \<and>
   (\<exists>t' sel. MTX_fund ex_env ex_tx ex_coins (Some (ex_options\<lparr>options.hardFee := Some 9900\<rparr>)) =
         Inr (t', sel) \<and>
       map value (outputs t') = [50000] \<and> changeIndex t' = -1 \<and>
       MTX_getFee t' = fee sel + change sel \<and> fee sel = 9900 \<and> change sel = 100)"
proof -
  have a: "(case MTX_fund ex_env ex_tx ex_coins (Some ex_options) of
              Inr (t', sel) \<Rightarrow> map value (outputs t') = [50000, 9000] \<and> fee sel = 1000 \<and>
                 change sel = 9000
            | Inl e \<Rightarrow> False)"
    by code_simp
  then obtain t1 sel1 where 1: "MTX_fund ex_env ex_tx ex_coins (Some ex_options) = Inr (t1, sel1)"
      "map value (outputs t1) = [50000, 9000]" "fee sel1 = 1000" "change sel1 = 9000"
    by (auto split: sum.splits)
  have d1: "\<not> isDust ex_env \<lparr>value = 9000, script = sc\<rparr> r" for sc r
    by (simp add: ex_env_def)
  from fund_change [OF 1(1)] 1 d1
  have r1: "changeIndex t1 = 1 \<and> MTX_getFee t1 = fee sel1"
    by (auto simp: Let_def)
  have b: "(case MTX_fund ex_env ex_tx ex_coins (Some (ex_options\<lparr>options.hardFee := Some 9900\<rparr>)) of
              Inr (t', sel) \<Rightarrow> map value (outputs t') = [50000] \<and> fee sel = 9900 \<and>
                 change sel = 100
            | Inl e \<Rightarrow> False)"
    by code_simp
  then obtain t2 sel2 where 2: "MTX_fund ex_env ex_tx ex_coins
         (Some (ex_options\<lparr>options.hardFee := Some 9900\<rparr>)) = Inr (t2, sel2)"
      "map value (outputs t2) = [50000]" "fee sel2 = 9900" "change sel2 = 100"
    by (auto split: sum.splits)
  have d2: "isDust ex_env \<lparr>value = 100, script = sc\<rparr> r" for sc r
    by (simp add: ex_env_def)
  from fund_change [OF 2(1)] 2 d2
  have r2: "changeIndex t2 = -1 \<and> MTX_getFee t2 = fee sel2 + change sel2"
    by (auto simp: Let_def)
  from 1 r1 have A: "\<exists>t' sel. MTX_fund ex_env ex_tx ex_coins (Some ex_options) = Inr (t', sel) \<and>
       map value (outputs t') = [50000, 9000] \<and> changeIndex t' = 1 \<and>
       MTX_getFee t' = fee sel \<and> fee sel = 1000"
    by (intro exI [of _ t1] exI [of _ sel1]) simp
  from 2 r2 have B: "\<exists>t' sel. MTX_fund ex_env ex_tx ex_coins (Some (ex_options\<lparr>options.hardFee := Some 9900\<rparr>)) =
         Inr (t', sel) \<and>
       map value (outputs t') = [50000] \<and> changeIndex t' = -1 \<and>
       MTX_getFee t' = fee sel + change sel \<and> fee sel = 9900 \<and> change sel = 100"
    by (intro exI [of _ t2] exI [of _ sel2]) simp
  from A B show ?thesis by (rule conjI)
qed


section \<open>Properties of templating and signing\<close>

lemma util_indexOf_range: "-1 \<le> util_indexOf xs d \<and> util_indexOf xs d < int (length xs)"
  by (induction xs) (auto simp: Let_def)

lemma util_indexOf_none: "util_indexOf xs d = -1 \<longleftrightarrow> Buf d \<notin> set xs"
proof (induction xs)
  case Nil
  show ?case by simp
next
  case (Cons x xs)
  show ?case
    using Cons.IH util_indexOf_range [of xs d] by (auto simp: Let_def)
qed

lemma util_indexOf_nth:
  "Buf d \<in> set xs \<Longrightarrow> xs ! nat (util_indexOf xs d) = Buf d"
proof (induction xs)
  case Nil
  then show ?case by simp
next
  case (Cons x xs)
  show ?case
  proof (cases "x = Buf d")
    case True
    then show ?thesis by simp
  next
    case False
    with Cons.prems have m: "Buf d \<in> set xs" by simp
    then have n: "util_indexOf xs d \<noteq> -1" by (simp add: util_indexOf_none)
    with util_indexOf_range [of xs d] have "0 \<le> util_indexOf xs d" by linarith
    then have "nat (util_indexOf xs d + 1) = Suc (nat (util_indexOf xs d))" by linarith
    with False n Cons.IH [OF m] show ?thesis by (simp add: Let_def)
  qed
qed

lemma isKey_Buf: "isKey x \<Longrightarrow> \<exists>b. x = Buf b"
  by (cases x) (simp_all add: isKey_def)

text \<open>The shape of a multisig script: threshold, keys, key count, check opcode.\<close>

lemma isMultisig_shape:
  assumes "isMultisig prev"
  shows "\<exists>a ks b. prev = Op a # map Push ks @ [Op b, Op OP_CHECKMULTISIG] \<and>
           getSmall prev 0 = opSmall (Op a) \<and> 1 \<le> opSmall (Op a) \<and>
           opSmall (Op a) \<le> int (length ks) \<and> opSmall (Op b) = int (length ks) \<and>
           ks \<noteq> []"
proof -
  let ?len = "length prev"
  from assms have len: "4 \<le> ?len" and lastop: "prev ! (?len - 1) = Op OP_CHECKMULTISIG"
    and n1: "1 \<le> getSmall prev (int ?len - 2)" and m1: "1 \<le> getSmall prev 0"
    and mn: "getSmall prev 0 \<le> getSmall prev (int ?len - 2)"
    and ln: "int ?len = getSmall prev (int ?len - 2) + 3"
    and keys: "list_all (\<lambda>i. isKey (get prev (int i))) [1 ..< ?len - 2]"
    by (simp_all add: isMultisig_def Let_def)
  have g0: "getSmall prev 0 = opSmall (prev ! 0)"
    using len by (cases prev) (simp_all add: getSmall_def)
  have gn: "getSmall prev (int ?len - 2) = opSmall (prev ! (?len - 2))"
    using len by (simp add: getSmall_def nat_diff_distrib)
  obtain a where a: "prev ! 0 = Op a"
    using m1 g0 by (cases "prev ! 0") (auto split: if_splits)
  obtain b where b: "prev ! (?len - 2) = Op b"
    using n1 gn by (cases "prev ! (?len - 2)") (auto split: if_splits)
  define ks where "ks = map (\<lambda>i. case prev ! i of Push k \<Rightarrow> k | _ \<Rightarrow> []) [1 ..< ?len - 2]"
  have kp: "prev ! i = Push (ks ! (i - 1))" if "1 \<le> i" "i < ?len - 2" for i
  proof -
    from keys that have "isKey (get prev (int i))"
      by (simp add: list_all_iff)
    then obtain k where "get prev (int i) = Buf k" using isKey_Buf by blast
    then have "prev ! i = Push k"
      using that by (cases "prev ! i") (simp_all add: get_def split: if_splits)
    then show ?thesis
      using that by (simp add: ks_def)
  qed
  have lk: "length ks = ?len - 3" by (simp add: ks_def)
  have "prev = Op a # map Push ks @ [Op b, Op OP_CHECKMULTISIG]"
  proof (rule nth_equalityI)
    show "length prev = length (Op a # map Push ks @ [Op b, Op OP_CHECKMULTISIG])"
      using len lk by simp
  next
    fix i
    assume i: "i < length prev"
    consider "i = 0" | "1 \<le> i \<and> i < ?len - 2" | "i = ?len - 2" | "i = ?len - 1"
      using i by linarith
    then show "prev ! i = (Op a # map Push ks @ [Op b, Op OP_CHECKMULTISIG]) ! i"
    proof cases
      case 1
      then show ?thesis using a by simp
    next
      case 2
      then have "i - 1 < length ks" using lk by linarith
      with 2 kp [of i] show ?thesis
        by (cases i) (simp_all add: nth_append)
    next
      case 3
      then obtain j where j: "i = Suc j" "j = length ks" using len lk by (cases i) auto
      with 3 b show ?thesis by (simp add: nth_append)
    next
      case 4
      then obtain j where j: "i = Suc j" "j = Suc (length ks)" using len lk by (cases i) auto
      with 4 lastop show ?thesis by (simp add: nth_append)
    qed
  qed
  moreover have "opSmall (Op b) = int (length ks)"
    using ln gn b lk len by simp
  moreover have "getSmall prev 0 = opSmall (Op a)" "1 \<le> opSmall (Op a)"
    using g0 a m1 by simp_all
  moreover have "opSmall (Op a) \<le> int (length ks)"
    using mn g0 a gn b \<open>opSmall (Op b) = int (length ks)\<close> by simp
  moreover have "ks \<noteq> []"
    using lk len by auto
  ultimately show ?thesis by blast
qed

lemma multisig_accessors:
  assumes "prev = Op a # map Push ks @ [Op b, Op OP_CHECKMULTISIG]"
  shows "scriptKeys prev = map Buf ks"
    and "getSmall prev (int (length prev) - 2) = opSmall (Op b)"
    and "getSmall prev 0 = opSmall (Op a)"
    and "indexOf prev d = -1 \<longleftrightarrow> d \<notin> set ks"
proof -
  have len: "length prev = length ks + 3" using assms by simp
  then have "length prev - 2 = Suc (length ks)" by linarith
  then have u: "[1 ..< length prev - 2] = map Suc [0 ..< length ks]"
    by (simp only: map_Suc_upt One_nat_def)
  have g: "get prev (int (Suc i)) = Buf (ks ! i)" if "i < length ks" for i
  proof -
    have "prev ! Suc i = Push (ks ! i)"
      using that by (simp add: assms nth_append)
    moreover have "int (Suc i) < int (length prev)"
      using that len by linarith
    ultimately show ?thesis
      by (simp add: get_def del: of_nat_Suc)
  qed
  have "scriptKeys prev = map (\<lambda>i. get prev (int (Suc i))) [0 ..< length ks]"
    by (simp only: scriptKeys_def u map_map o_def)
  also have "\<dots> = map (\<lambda>i. Buf (ks ! i)) [0 ..< length ks]"
    using g by (intro map_cong) simp_all
  also have "\<dots> = map Buf (map (\<lambda>i. ks ! i) [0 ..< length ks])"
    by (simp add: o_def)
  also have "\<dots> = map Buf ks"
    by (simp only: map_nth)
  finally show "scriptKeys prev = map Buf ks" .
  have "prev ! Suc (length ks) = Op b"
    by (simp add: assms nth_append)
  then show "getSmall prev (int (length prev) - 2) = opSmall (Op b)"
    by (simp add: getSmall_def len nat_add_distrib del: opSmall.simps)
  show "getSmall prev 0 = opSmall (Op a)"
    by (simp add: getSmall_def assms)
  have "toArray prev = Num a # map Buf ks @ [Num b, Num OP_CHECKMULTISIG]"
    by (simp add: toArray_def assms)
  then show "indexOf prev d = -1 \<longleftrightarrow> d \<notin> set ks"
    by (auto simp: indexOf_def util_indexOf_none simp del: util_indexOf.simps)
qed

lemma isMultisig_not_single: "isMultisig prev \<Longrightarrow> \<not> isPubkey prev \<and> \<not> isPubkeyhash prev"
proof -
  assume "isMultisig prev"
  from isMultisig_shape [OF this] obtain a ks b where
    p: "prev = Op a # map Push ks @ [Op b, Op OP_CHECKMULTISIG]" and a: "1 \<le> opSmall (Op a)"
    and k: "ks \<noteq> []"
    by blast
  have "\<not> isPubkey prev"
    using k by (cases ks) (simp_all add: p isPubkey_def)
  moreover have "\<not> isPubkeyhash prev"
  proof
    assume "isPubkeyhash prev"
    then have "prev ! 0 = Op OP_DUP"
      by (simp add: isPubkeyhash_def)
    then have "a = OP_DUP" by (simp add: p)
    with a show False by (simp add: OP_DUP_def)
  qed
  ultimately show ?thesis by simp
qed

lemma vset_empty: "vset [] 0 x = [x]"
  by (simp add: vset_def)

lemma template_slots:
  "foldl (\<lambda>v i. vset v (Suc i) OP_0) [OP_0] [0 ..< n] = OP_0 # replicate n OP_0"
proof (induction n)
  case 0
  show ?case by simp
next
  case (Suc n)
  have "vset (OP_0 # replicate n OP_0) (Suc n) OP_0 = OP_0 # replicate (Suc n) OP_0"
    by (simp add: vset_def replicate_append_same)
  with Suc show ?case by simp
qed

text \<open>
  Claim C4. For a bare m-of-n multisig previous script the number of keys is the \<open>n\<close> the
  script declares. If the public key of the signer is one of the keys, templating an empty
  vector succeeds with one empty marker slot followed by exactly \<open>n\<close> empty placeholder
  slots; if it is not, templating returns false (it has no way to throw) and the vector
  stays empty.
\<close>

theorem scriptVector_multisig:
  "isMultisig prev \<Longrightarrow>
     int (length (scriptKeys prev)) = getSmall prev (int (length prev) - 2) \<and>
     scriptVector prev [] ring =
       (if Buf (publicKey ring) \<in> set (scriptKeys prev)
        then (True, OP_0 # replicate (length (scriptKeys prev)) OP_0)
        else (False, []))"
proof -
  assume ms: "isMultisig prev"
  from isMultisig_shape [OF ms] obtain a ks b where
    p: "prev = Op a # map Push ks @ [Op b, Op OP_CHECKMULTISIG]"
    and b: "opSmall (Op b) = int (length ks)"
    by blast
  note acc = multisig_accessors [OF p]
  have n: "getSmall prev (int (length prev) - 2) = int (length ks)"
    using acc(2) b by simp
  have mem: "Buf (publicKey ring) \<in> set (scriptKeys prev) \<longleftrightarrow> publicKey ring \<in> set ks"
    by (auto simp: acc(1))
  have "scriptVector prev [] ring =
       (if publicKey ring \<in> set ks then (True, replicate (Suc (length ks)) OP_0) else (False, []))"
    using isMultisig_not_single [OF ms] ms acc(4) [of "publicKey ring"] n vset_empty
    by (simp add: scriptVector_def Let_def template_slots)
  then show ?thesis
    using n mem by (simp add: acc(1))
qed

theorem scriptVector_multisig_witness:
  "isMultisig ex_multisig \<and>
   scriptVector ex_multisig [] (ex_ring (ex_key 2)) = (True, [OP_0, OP_0, OP_0, OP_0]) \<and>
   scriptVector ex_multisig [] (ex_ring (ex_key 4)) = (False, [])"
proof -
  have ms: "isMultisig ex_multisig" by code_simp
  have k: "scriptKeys ex_multisig = [Buf (ex_key 1), Buf (ex_key 2), Buf (ex_key 3)]"
    by code_simp
  have m2: "Buf (publicKey (ex_ring (ex_key 2))) \<in> set (scriptKeys ex_multisig)"
    by (simp add: k ex_ring_def)
  have m4: "Buf (publicKey (ex_ring (ex_key 4))) \<notin> set (scriptKeys ex_multisig)"
    by (simp add: k ex_ring_def ex_key_def)
  from scriptVector_multisig [OF ms, of "ex_ring (ex_key 2)"] m2
  have 1: "scriptVector ex_multisig [] (ex_ring (ex_key 2)) = (True, [OP_0, OP_0, OP_0, OP_0])"
    by (simp add: k)
  from scriptVector_multisig [OF ms, of "ex_ring (ex_key 4)"] m4
  have 2: "scriptVector ex_multisig [] (ex_ring (ex_key 4)) = (False, [])"
    by simp
  from ms 1 2 show ?thesis by simp
qed

lemma vset_not_empty: "vset v i x \<noteq> []"
  by (auto simp: vset_def)

lemma slots_not_empty: "v \<noteq> [] \<Longrightarrow> foldl (\<lambda>v i. vset v (i + 1) OP_0) v xs \<noteq> []"
  by (induction xs arbitrary: v) (simp_all add: vset_not_empty)

lemma scriptVector_False: "scriptVector prev v ring = (False, v') \<Longrightarrow> v' = v"
  by (auto simp: scriptVector_def Let_def split: if_splits)

lemma scriptVector_True: "scriptVector prev v ring = (True, v') \<Longrightarrow> v' \<noteq> []"
  using slots_not_empty [OF vset_not_empty]
  by (auto simp: scriptVector_def Let_def vset_not_empty split: if_splits)

lemma templateInput_content:
  "in_script inp \<noteq> [] \<or> witness inp \<noteq> [] \<Longrightarrow> templateInput C inp prev ring = (True, inp)"
  by (simp add: templateInput_def)

lemma templateInput_result:
  "templateInput C inp prev ring = (ok, inp') \<Longrightarrow>
   (if ok then in_script inp' \<noteq> [] \<or> witness inp' \<noteq> [] else inp' = inp)"
proof (cases "in_script inp \<noteq> [] \<or> witness inp \<noteq> []")
  case True
  assume "templateInput C inp prev ring = (ok, inp')"
  with True show ?thesis by (auto simp: templateInput_def)
next
  case False
  assume r: "templateInput C inp prev ring = (ok, inp')"
  have sv: "\<And>p v b v'. scriptVector p v ring = (b, v') \<Longrightarrow> (if b then v' \<noteq> [] else v' = v)"
    using scriptVector_False scriptVector_True by (metis (full_types))
  from False have e: "in_script inp = []" "witness inp = []" by simp_all
  show ?thesis
  proof (cases ok)
    case True
    with r show ?thesis
      by (auto simp: templateInput_def push_def split: if_splits option.splits prod.splits bool.splits
            dest: scriptVector_True)
  next
    case nok: False
    with r show ?thesis
      by (auto simp: templateInput_def e split: if_splits option.splits prod.splits bool.splits
            dest!: scriptVector_False)
  qed
qed

text \<open>
  Claim C5. Templating an input is idempotent. When the script or the witness of the
  input already has content, \<open>scriptInput\<close> returns success at once and leaves the
  transaction as it is; and whatever a first call returns, a second call on its result
  returns the same and changes nothing more.
\<close>

theorem scriptInput_idempotent:
  "(0 \<le> i \<and> i < int (length (inputs t)) \<and>
      (in_script (inputs t ! nat i) \<noteq> [] \<or> witness (inputs t ! nat i) \<noteq> []) \<longrightarrow>
      scriptInput C t i (Some coin) ring = Inr (True, t)) \<and>
   (\<forall>c ok t'. scriptInput C t i c ring = Inr (ok, t') \<longrightarrow>
      scriptInput C t' i c ring = Inr (ok, t'))"
proof (rule conjI)
  show "0 \<le> i \<and> i < int (length (inputs t)) \<and>
      (in_script (inputs t ! nat i) \<noteq> [] \<or> witness (inputs t ! nat i) \<noteq> []) \<longrightarrow>
      scriptInput C t i (Some coin) ring = Inr (True, t)"
    by (simp add: scriptInput_def templateInput_content)
next
  show "\<forall>c ok t'. scriptInput C t i c ring = Inr (ok, t') \<longrightarrow>
      scriptInput C t' i c ring = Inr (ok, t')"
  proof (intro allI impI)
    fix c ok t'
    assume r: "scriptInput C t i c ring = Inr (ok, t')"
    then have i: "0 \<le> i \<and> i < int (length (inputs t))"
      by (auto simp: scriptInput_def split: if_splits)
    then have n: "nat i < length (inputs t)" by linarith
    from r i obtain coin' where c: "c = Some coin'"
      by (cases c) (auto simp: scriptInput_def)
    from r i c obtain inp' where
      ti: "templateInput C (inputs t ! nat i) (script coin') ring = (ok, inp')"
      and t': "t' = t\<lparr>inputs := (inputs t)[nat i := inp']\<rparr>"
      by (auto simp: scriptInput_def split: prod.splits)
    have i': "0 \<le> i \<and> i < int (length (inputs t'))" and g: "inputs t' ! nat i = inp'"
      using i n by (simp_all add: t')
    show "scriptInput C t' i c ring = Inr (ok, t')"
    proof (cases ok)
      case True
      with templateInput_result [OF ti] have "in_script inp' \<noteq> [] \<or> witness inp' \<noteq> []"
        by simp
      then have "templateInput C inp' (script coin') ring = (True, inp')"
        by (rule templateInput_content)
      with True i' g show ?thesis
        by (simp add: scriptInput_def c) (simp add: t')
    next
      case False
      with templateInput_result [OF ti] have "inp' = inputs t ! nat i" by simp
      then have "t' = t" using n by (simp add: t')
      with r show ?thesis by simp
    qed
  qed
qed

theorem scriptInput_idempotent_witness:
  "\<exists>t'. scriptInput ex_crypto ex_spend 0 (Some ex_multisig_coin) (ex_ring (ex_key 2)) =
           Inr (True, t') \<and>
        in_script (inputs t' ! 0) = [OP_0, OP_0, OP_0, OP_0] \<and>
        scriptInput ex_crypto t' 0 (Some ex_multisig_coin) (ex_ring (ex_key 2)) = Inr (True, t')"
proof -
  have "case scriptInput ex_crypto ex_spend 0 (Some ex_multisig_coin) (ex_ring (ex_key 2)) of
          Inr (ok, t') \<Rightarrow> ok \<and> in_script (inputs t' ! 0) = [OP_0, OP_0, OP_0, OP_0]
        | Inl e \<Rightarrow> False"
    by code_simp
  then obtain t' where
    1: "scriptInput ex_crypto ex_spend 0 (Some ex_multisig_coin) (ex_ring (ex_key 2)) =
           Inr (True, t')"
    and 2: "in_script (inputs t' ! 0) = [OP_0, OP_0, OP_0, OP_0]"
    by (auto split: sum.splits)
  from scriptInput_idempotent [of 0 ex_spend ex_crypto ex_multisig_coin "ex_ring (ex_key 2)"] 1
  have "scriptInput ex_crypto t' 0 (Some ex_multisig_coin) (ex_ring (ex_key 2)) = Inr (True, t')"
    by blast
  with 1 2 show ?thesis by blast
qed

lemma signPrepare_value: "signPrepare C inp coin = Inr st \<Longrightarrow> sg_value st = 0"
  by (auto simp: signPrepare_def Let_def split: if_splits option.splits sum.splits)

text \<open>
  Claim C6, at a witness-pubkey-hash coin of value 50000: \<open>signInput\<close> selects the
  segregated-witness digest (version 1), and the value it hands to \<open>signature\<close>, and so to
  the digest, is 0, not the 50000 of the coin.
\<close>

theorem signPrepare_witness_value:
  "case signPrepare ex_crypto (fromCoin ex_wpkh_coin) ex_wpkh_coin of
     Inr st \<Rightarrow> sg_version st = 1 \<and> sg_value st = 0 \<and> value ex_wpkh_coin = 50000
   | Inl e \<Rightarrow> False"
  by code_simp

subsection \<open>Filling a multisig vector\<close>

lemma count_fold:
  "foldl (\<lambda>total i. if P (w ! i) then total + 1 else total) a [0 ..< length w] =
     a + int (length (filter P w))"
proof (induction w arbitrary: a rule: rev_induct)
  case Nil
  show ?case by simp
next
  case (snoc x w)
  have "foldl (\<lambda>total i. if P ((w @ [x]) ! i) then total + 1 else total) a [0 ..< length w] =
        foldl (\<lambda>total i. if P (w ! i) then total + 1 else total) a [0 ..< length w]"
    by (rule foldl_cong) (simp_all add: nth_append)
  with snoc show ?case by simp
qed

lemma countSignatures_tl:
  "countSignatures v = int (length (filter (\<lambda>x. isSignature (opGet x)) (tl v)))"
proof (cases v)
  case Nil
  then show ?thesis by (simp add: countSignatures_def)
next
  case (Cons x w)
  have u: "[1 ..< length v] = map Suc [0 ..< length w]"
    by (simp only: Cons list.size map_Suc_upt One_nat_def) simp
  have "countSignatures v =
        foldl (\<lambda>total i. if isSignature (get v (int (Suc i))) then total + 1 else total)
          0 [0 ..< length w]"
    by (simp only: countSignatures_def u foldl_map)
  also have "\<dots> = foldl (\<lambda>total i. if isSignature (opGet (w ! i)) then total + 1 else total)
          0 [0 ..< length w]"
  proof (rule foldl_cong)
    fix a i
    assume "i \<in> set [0 ..< length w]"
    then have "get v (int (Suc i)) = opGet (w ! i)"
      by (simp add: get_def Cons del: of_nat_Suc)
    then show "(if isSignature (get v (int (Suc i))) then a + 1 else a) =
               (if isSignature (opGet (w ! i)) then a + 1 else a)"
      by simp
  qed simp_all
  also have "\<dots> = int (length (filter (\<lambda>x. isSignature (opGet x)) w))"
    using count_fold [of "\<lambda>x. isSignature (opGet x)" w 0] by simp
  finally show ?thesis by (simp add: Cons)
qed

lemma removeEmpty_append:
  "foldl (\<lambda>v i. if getSmall v (int i) = 0 then remove v i else v) (w @ ys) (rev [1 ..< length w]) =
   foldl (\<lambda>v i. if getSmall v (int i) = 0 then remove v i else v) w (rev [1 ..< length w]) @ ys"
proof (induction w arbitrary: ys rule: rev_induct)
  case Nil
  show ?case by simp
next
  case (snoc x w)
  show ?case
  proof (cases "w = []")
    case True
    then show ?thesis by simp
  next
    case False
    then have l: "1 \<le> length w" by (cases w) simp_all
    then have r: "rev [1 ..< length (w @ [x])] = length w # rev [1 ..< length w]"
      by simp
    have g: "getSmall ((w @ [x]) @ zs) (int (length w)) = opSmall x" for zs
      by (simp add: getSmall_def nth_append)
    have rm: "remove ((w @ [x]) @ zs) (length w) = w @ zs" for zs
      by (simp add: remove_def)
    let ?f = "\<lambda>v i. if getSmall v (int i) = 0 then remove v i else v"
    have step: "foldl ?f ((w @ [x]) @ zs) (rev [1 ..< length (w @ [x])]) =
                foldl ?f (if opSmall x = 0 then w @ zs else w @ x # zs) (rev [1 ..< length w])"
      for zs
      unfolding r foldl_Cons g rm by simp
    show ?thesis
    proof (cases "opSmall x = 0")
      case True
      have "foldl ?f ((w @ [x]) @ ys) (rev [1 ..< length (w @ [x])]) =
            foldl ?f w (rev [1 ..< length w]) @ ys"
        using step [of ys] True snoc [of ys] by simp
      moreover have "foldl ?f (w @ [x]) (rev [1 ..< length (w @ [x])]) =
            foldl ?f w (rev [1 ..< length w])"
        using step [of "[]"] True by simp
      ultimately show ?thesis by simp
    next
      case nz: False
      have "foldl ?f ((w @ [x]) @ ys) (rev [1 ..< length (w @ [x])]) =
            foldl ?f w (rev [1 ..< length w]) @ x # ys"
        using step [of ys] nz snoc [of "x # ys"] by simp
      moreover have "foldl ?f (w @ [x]) (rev [1 ..< length (w @ [x])]) =
            foldl ?f w (rev [1 ..< length w]) @ [x]"
        using step [of "[]"] nz snoc [of "[x]"] by simp
      ultimately show ?thesis by simp
    qed
  qed
qed

lemma removeEmpty_filter:
  "removeEmpty (x # w) = x # filter (\<lambda>y. opSmall y \<noteq> 0) w"
proof (induction w rule: rev_induct)
  case Nil
  show ?case by (simp add: removeEmpty_def)
next
  case (snoc y w)
  let ?f = "\<lambda>v i. if getSmall v (int i) = 0 then remove v i else v"
  have r: "rev [1 ..< length (x # w @ [y])] = length (x # w) # rev [1 ..< length (x # w)]"
    by simp
  have g: "getSmall (x # w @ [y]) (int (length (x # w))) = opSmall y"
    by (simp add: getSmall_def nth_append del: of_nat_Suc)
  have rm: "remove (x # w @ [y]) (length (x # w)) = x # w"
    by (simp add: remove_def)
  show ?case
  proof (cases "opSmall y = 0")
    case True
    have "removeEmpty (x # w @ [y]) = foldl ?f (x # w) (rev [1 ..< length (x # w)])"
      unfolding removeEmpty_def r foldl_Cons g rm using True by simp
    then show ?thesis
      using snoc True by (simp add: removeEmpty_def)
  next
    case False
    have "removeEmpty (x # w @ [y]) = foldl ?f ((x # w) @ [y]) (rev [1 ..< length (x # w)])"
      unfolding removeEmpty_def r foldl_Cons g using False by simp
    also have "\<dots> = foldl ?f (x # w) (rev [1 ..< length (x # w)]) @ [y]"
      by (rule removeEmpty_append)
    finally show ?thesis
      using snoc False by (simp add: removeEmpty_def)
  qed
qed


lemma keyPos_props:
  assumes "k \<in> set K"
  shows "keyPos K k < length K" and "K ! keyPos K k = k"
    and "util_indexOf (map Buf K) k = int (keyPos K k)"
proof -
  have mem: "Buf k \<in> set (map Buf K)" using assms by simp
  then have n: "util_indexOf (map Buf K) k \<noteq> -1" by (simp only: util_indexOf_none not_not)
  with util_indexOf_range [of "map Buf K" k]
  have r: "0 \<le> util_indexOf (map Buf K) k" "util_indexOf (map Buf K) k < int (length K)"
    by simp_all
  then show lt: "keyPos K k < length K" by (simp add: keyPos_def)
  from r show "util_indexOf (map Buf K) k = int (keyPos K k)" by (simp add: keyPos_def)
  from util_indexOf_nth [OF mem] have "map Buf K ! keyPos K k = Buf k" by (simp add: keyPos_def)
  with lt show "K ! keyPos K k = k" by simp
qed

lemma signature_not_empty: "isSignature (Buf s) \<Longrightarrow> s \<noteq> []"
  by (auto simp: isSignature_def)

lemma slot_filled:
  assumes "\<forall>k \<in> S. isSignature (Buf (sg k))"
  shows "isSignature (opGet (slot K sg S j)) \<longleftrightarrow> (K ! j \<in> S \<and> keyPos K (K ! j) = j)"
    and "opSmall (slot K sg S j) \<noteq> 0 \<longleftrightarrow> (K ! j \<in> S \<and> keyPos K (K ! j) = j)"
  using assms signature_not_empty
  by (auto simp: slot_def OP_0_def isSignature_def)

lemma filled_card:
  assumes "S \<subseteq> set K"
  shows "card {j. j < length K \<and> K ! j \<in> S \<and> keyPos K (K ! j) = j} = card S"
proof -
  have "{j. j < length K \<and> K ! j \<in> S \<and> keyPos K (K ! j) = j} = keyPos K ` S"
  proof (intro set_eqI iffI)
    fix j
    assume "j \<in> {j. j < length K \<and> K ! j \<in> S \<and> keyPos K (K ! j) = j}"
    then have "K ! j \<in> S" "keyPos K (K ! j) = j" by simp_all
    then show "j \<in> keyPos K ` S" by (metis imageI)
  next
    fix j
    assume "j \<in> keyPos K ` S"
    then obtain k where k: "k \<in> S" "j = keyPos K k" by blast
    with assms have "k \<in> set K" by blast
    from keyPos_props [OF this] k
    show "j \<in> {j. j < length K \<and> K ! j \<in> S \<and> keyPos K (K ! j) = j}" by simp
  qed
  moreover have "inj_on (keyPos K) S"
  proof (rule inj_onI)
    fix x y
    assume "x \<in> S" "y \<in> S" "keyPos K x = keyPos K y"
    with assms keyPos_props(2) [of x K] keyPos_props(2) [of y K] show "x = y" by auto
  qed
  ultimately show ?thesis by (simp add: card_image)
qed

lemma filter_upt_card: "length (filter P [0 ..< n]) = card {j. j < n \<and> P j}"
proof -
  have "{i. i < length [0 ..< n] \<and> P ([0 ..< n] ! i)} = {j. j < n \<and> P j}"
    by auto
  then show ?thesis by (simp only: length_filter_conv_card)
qed

lemma vector_counts:
  assumes "S \<subseteq> set K" and "\<forall>k \<in> S. isSignature (Buf (sg k))"
  shows "countSignatures (partialVector K sg S) = int (card S)"
    and "countSignatures (finalVector K sg S) = int (card S)"
    and "length (finalVector K sg S) = Suc (card S)"
    and "length (partialVector K sg S) = Suc (length K)"
    and "removeEmpty (partialVector K sg S) = finalVector K sg S"
proof -
  let ?P = "\<lambda>j. K ! j \<in> S \<and> keyPos K (K ! j) = j"
  note sf = slot_filled [OF assms(2)]
  have c: "length (filter ?P [0 ..< length K]) = card S"
    using filled_card [OF assms(1)] by (simp only: filter_upt_card)
  have "filter (\<lambda>x. isSignature (opGet x)) (map (slot K sg S) [0 ..< length K]) =
        map (slot K sg S) (filter ?P [0 ..< length K])"
    by (simp add: filter_map o_def sf(1))
  then show "countSignatures (partialVector K sg S) = int (card S)"
    using c by (simp add: countSignatures_tl partialVector_def)
  have nz: "filter (\<lambda>x. opSmall x \<noteq> 0) (map (slot K sg S) [0 ..< length K]) =
        map (slot K sg S) (filter ?P [0 ..< length K])"
    by (simp add: filter_map o_def sf(2))
  then show "length (finalVector K sg S) = Suc (card S)"
    using c by (simp add: finalVector_def)
  have "filter (\<lambda>x. isSignature (opGet x)) (map (slot K sg S) (filter ?P [0 ..< length K])) =
        map (slot K sg S) (filter ?P [0 ..< length K])"
    by (simp add: filter_map o_def sf(1))
  then show "countSignatures (finalVector K sg S) = int (card S)"
    using c nz by (simp add: countSignatures_tl finalVector_def)
  show "length (partialVector K sg S) = Suc (length K)"
    by (simp add: partialVector_def)
  show "removeEmpty (partialVector K sg S) = finalVector K sg S"
    by (simp add: partialVector_def finalVector_def removeEmpty_filter)
qed

lemma partialVector_insert:
  assumes "k \<in> set K"
  shows "(partialVector K sg S)[Suc (keyPos K k) := Push (sg k)] = partialVector K sg (insert k S)"
proof -
  note kp = keyPos_props [OF assms]
  have "(map (slot K sg S) [0 ..< length K])[keyPos K k := Push (sg k)] =
        map (slot K sg (insert k S)) [0 ..< length K]"
  proof (rule nth_equalityI)
    show "length ((map (slot K sg S) [0 ..< length K])[keyPos K k := Push (sg k)]) =
          length (map (slot K sg (insert k S)) [0 ..< length K])"
      by simp
  next
    fix j
    assume "j < length ((map (slot K sg S) [0 ..< length K])[keyPos K k := Push (sg k)])"
    then have j: "j < length K" by simp
    show "(map (slot K sg S) [0 ..< length K])[keyPos K k := Push (sg k)] ! j =
          map (slot K sg (insert k S)) [0 ..< length K] ! j"
    proof (cases "j = keyPos K k")
      case True
      then show ?thesis using kp j by (simp add: slot_def)
    next
      case False
      then have "slot K sg (insert k S) j = slot K sg S j"
        by (auto simp: slot_def)
      with False j show ?thesis by simp
    qed
  qed
  then show ?thesis by (simp add: partialVector_def)
qed

lemma partialVector_slot:
  assumes "k \<in> set K" and "\<forall>k \<in> S. isSignature (Buf (sg k))"
  shows "getSmall (partialVector K sg S) (int (keyPos K k) + 1) = 0 \<longleftrightarrow> k \<notin> S"
proof -
  note kp = keyPos_props [OF assms(1)]
  have "partialVector K sg S ! Suc (keyPos K k) = slot K sg S (keyPos K k)"
    using kp(1) by (simp add: partialVector_def)
  moreover have "opSmall (slot K sg S (keyPos K k)) = 0 \<longleftrightarrow> k \<notin> S"
    using slot_filled(2) [OF assms(2), of K "keyPos K k"] kp(2) by metis
  moreover have "nat (int (keyPos K k) + 1) = Suc (keyPos K k)" by simp
  ultimately show ?thesis
    using kp(1) by (simp add: getSmall_def partialVector_def del: opSmall.simps)
qed

lemma signMultisig_partial:
  assumes p: "prev = Op a # map Push K @ [Op b, Op OP_CHECKMULTISIG]"
    and b: "opSmall (Op b) = int (length K)"
    and S: "S \<subseteq> set K" and k: "k \<in> set K"
    and sigs: "\<forall>x \<in> insert k S. isSignature (Buf (sg x))"
    and less: "int (card S) < getSmall prev 0"
    and ring: "publicKey ring = k"
  shows "signMultisig prev (partialVector K sg S) (sg k) ring =
           (if k \<in> S then Inr (False, partialVector K sg S)
            else if int (card S) + 1 = getSmall prev 0
            then Inr (True, finalVector K sg (insert k S))
            else Inr (False, partialVector K sg (insert k S)))"
proof -
  note acc = multisig_accessors [OF p]
  define m where "m = getSmall prev 0"
  have sS: "\<forall>x \<in> S. isSignature (Buf (sg x))" using sigs by simp
  note vc = vector_counts [OF S sS]
  note kp = keyPos_props [OF k]
  have fin: "finite S" using S finite_subset by blast
  let ?v = "partialVector K sg S"
  have g0: "getSmall ?v 0 = 0"
    by (simp add: getSmall_def partialVector_def OP_0_def)
  have n: "getSmall prev (int (length prev) - 2) = int (length K)"
    using acc(2) b by simp
  have len: "int (length ?v) - 1 = int (length K)"
    by (simp add: vc(4))
  have pad: "?v @ replicate (nat (int (length K) - (int (length ?v) - 1))) OP_0 = ?v"
    by (simp add: len)
  have ki: "util_indexOf (scriptKeys prev) (publicKey ring) = int (keyPos K k)"
    using kp(3) by (simp add: acc(1) ring)
  have inr: "int (keyPos K k) + 1 < int (length ?v)"
    using kp(1) by (simp add: vc(4))
  have nn: "nat (int (keyPos K k) + 1) = Suc (keyPos K k)" by simp
  have vs: "vset ?v (Suc (keyPos K k)) (Push (sg k)) = partialVector K sg (insert k S)"
    using kp(1) partialVector_insert [OF k, of sg S] by (simp add: vset_def vc(4))
  have lm: "int (card S) < m" using less by (simp add: m_def)
  have unfold: "signMultisig prev ?v (sg k) ring =
     (let place = (int (card S) < m \<and> getSmall ?v (int (keyPos K k) + 1) = 0);
          v2 = (if place then partialVector K sg (insert k S) else ?v);
          total2 = (if place then int (card S) + 1 else int (card S))
      in if total2 \<ge> m
         then (let v4 = (pop ^^ nat (total2 - m)) (removeEmpty v2)
               in if int (length v4) - 1 \<noteq> m
                  then Inl (AssertionError ''vector.length - 1 === m'')
                  else Inr (True, v4))
         else Inr (False, v2))"
    unfolding signMultisig_def Let_def m_def [symmetric] n
    using g0 lm inr
    by (simp only: pad ki vc(1) nn vs len) (simp add: vs del: opSmall.simps)
  show ?thesis
  proof (cases "k \<in> S")
    case True
    then have np: "getSmall ?v (int (keyPos K k) + 1) \<noteq> 0"
      using partialVector_slot [OF k sS] by simp
    show ?thesis
      using True np lm by (simp add: unfold Let_def)
  next
    case False
    then have e: "getSmall ?v (int (keyPos K k) + 1) = 0"
      using partialVector_slot [OF k sS] by simp
    have S': "insert k S \<subseteq> set K" using S k by simp
    note vc' = vector_counts [OF S' sigs]
    have card': "card (insert k S) = Suc (card S)"
      using False fin by simp
    show ?thesis
    proof (cases "int (card S) + 1 = m")
      case True
      then have z: "nat (int (card S) + 1 - m) = 0" by simp
      have l: "int (length (finalVector K sg (insert k S))) - 1 = m"
        using True by (simp add: vc'(3) card')
      show ?thesis
        using False e True lm l
        by (simp add: unfold Let_def vc'(5) m_def [symmetric])
    next
      case ne: False
      with lm have "\<not> int (card S) + 1 \<ge> m" by linarith
      then show ?thesis
        using False e ne lm
        by (simp add: unfold Let_def m_def [symmetric])
    qed
  qed
qed

lemma signMultisig_final:
  assumes p: "prev = Op a # map Push K @ [Op b, Op OP_CHECKMULTISIG]"
    and b: "opSmall (Op b) = int (length K)"
    and S: "S \<subseteq> set K"
    and sigs: "\<forall>x \<in> S. isSignature (Buf (sg x))"
    and full: "int (card S) = getSmall prev 0"
  shows "signMultisig prev (finalVector K sg S) sig ring = Inr (True, finalVector K sg S)"
proof -
  note acc = multisig_accessors [OF p]
  note vc = vector_counts [OF S sigs]
  have fin: "finite (set K)" by simp
  have "card S \<le> card (set K)" using S by (simp add: card_mono)
  also have "\<dots> \<le> length K" by (rule card_length)
  finally have le: "card S \<le> length K" .
  have g0: "getSmall (finalVector K sg S) 0 = 0"
    by (simp add: getSmall_def finalVector_def OP_0_def)
  have n: "getSmall prev (int (length prev) - 2) = int (length K)"
    using acc(2) b by simp
  have len: "int (length (finalVector K sg S)) - 1 = int (card S)"
    by (simp add: vc(3))
  show ?thesis
    unfolding signMultisig_def Let_def n
    using g0 len le full by (simp add: vc(2) del: opSmall.simps)
qed

lemma signVector_multisig: "isMultisig prev \<Longrightarrow> signVector prev = signMultisig prev"
  using isMultisig_not_single [of prev] by (intro ext) (simp add: signVector_def)

lemma partialVector_empty: "partialVector K sg {} = OP_0 # replicate (length K) OP_0"
proof -
  have "slot K sg {} = (\<lambda>j. OP_0)"
    by (intro ext) (simp add: slot_def)
  then show ?thesis
    by (simp add: partialVector_def map_replicate_const)
qed

lemma signAll_partial:
  assumes p: "prev = Op a # map Push K @ [Op b, Op OP_CHECKMULTISIG]"
    and b: "opSmall (Op b) = int (length K)"
    and ms: "isMultisig prev"
    and rings: "\<forall>k. publicKey (rings k) = k"
  shows "distinct ks \<Longrightarrow> set ks \<subseteq> set K \<Longrightarrow> set ks \<inter> S = {} \<Longrightarrow> S \<subseteq> set K \<Longrightarrow>
         \<forall>x \<in> S \<union> set ks. isSignature (Buf (sg x)) \<Longrightarrow>
         int (card S) + int (length ks) \<le> getSmall prev 0 \<Longrightarrow>
         signAll prev sg rings ks (partialVector K sg S) =
           Inr (if ks = [] \<or> int (card S) + int (length ks) < getSmall prev 0
                then partialVector K sg (S \<union> set ks)
                else finalVector K sg (S \<union> set ks))"
proof (induction ks arbitrary: S)
  case Nil
  show ?case by simp
next
  case (Cons k ks)
  have fin: "finite S" using Cons.prems(4) finite_subset by blast
  have kK: "k \<in> set K" and kS: "k \<notin> S" using Cons.prems(2,3) by auto
  have sigs: "\<forall>x \<in> insert k S. isSignature (Buf (sg x))" using Cons.prems(5) by simp
  have less: "int (card S) < getSmall prev 0" using Cons.prems(6) by simp
  note step = signMultisig_partial [OF p b Cons.prems(4) kK sigs less, of "rings k"]
  have card': "card (insert k S) = Suc (card S)" using kS fin by simp
  have u: "S \<union> set (k # ks) = insert k S \<union> set ks" by simp
  show ?case
  proof (cases "int (card S) + 1 = getSmall prev 0")
    case True
    from Cons.prems(6) have "int (card S) + (1 + int (length ks)) \<le> getSmall prev 0"
      by simp
    with True have "int (length ks) \<le> 0" by linarith
    then have e: "ks = []" by simp
    from step rings kS True
    have "signVector prev (partialVector K sg S) (sg k) (rings k) =
            Inr (True, finalVector K sg (insert k S))"
      by (simp add: signVector_multisig [OF ms])
    then show ?thesis
      using True e by simp
  next
    case False
    from step rings kS False
    have s: "signVector prev (partialVector K sg S) (sg k) (rings k) =
            Inr (False, partialVector K sg (insert k S))"
      by (simp add: signVector_multisig [OF ms])
    have ih: "signAll prev sg rings ks (partialVector K sg (insert k S)) =
           Inr (if ks = [] \<or> int (card (insert k S)) + int (length ks) < getSmall prev 0
                then partialVector K sg (insert k S \<union> set ks)
                else finalVector K sg (insert k S \<union> set ks))"
    proof (rule Cons.IH)
      show "distinct ks" using Cons.prems(1) by simp
      show "set ks \<subseteq> set K" using Cons.prems(2) by simp
      show "set ks \<inter> insert k S = {}" using Cons.prems(1,3) by auto
      show "insert k S \<subseteq> set K" using Cons.prems(4) kK by simp
      show "\<forall>x \<in> insert k S \<union> set ks. isSignature (Buf (sg x))" using Cons.prems(5) by simp
      show "int (card (insert k S)) + int (length ks) \<le> getSmall prev 0"
        using Cons.prems(6) by (simp add: card')
    qed
    have c: "(ks = [] \<or> int (card (insert k S)) + int (length ks) < getSmall prev 0) =
             (int (card S) + int (length (k # ks)) < getSmall prev 0)"
      using False less Cons.prems(6) by (cases ks) (auto simp: card')
    show ?thesis
      using s ih c by (simp only: signAll.simps u) simp
  qed
qed

text \<open>What the final vector holds: the signatures of the keys that signed, by key position.\<close>

lemma finalVector_filled:
  assumes "\<forall>k \<in> S. isSignature (Buf (sg k))"
  shows "finalVector K sg S =
           OP_0 # map (\<lambda>j. Push (sg (K ! j)))
                    (filter (\<lambda>j. K ! j \<in> S \<and> keyPos K (K ! j) = j) [0 ..< length K])"
proof -
  have c: "(\<lambda>x. opSmall x \<noteq> 0) \<circ> slot K sg S = (\<lambda>j. K ! j \<in> S \<and> keyPos K (K ! j) = j)"
    using slot_filled(2) [OF assms, of K] by (intro ext) (simp only: comp_def)
  have m: "map (slot K sg S) (filter (\<lambda>j. K ! j \<in> S \<and> keyPos K (K ! j) = j) [0 ..< length K]) =
           map (\<lambda>j. Push (sg (K ! j)))
             (filter (\<lambda>j. K ! j \<in> S \<and> keyPos K (K ! j) = j) [0 ..< length K])"
    by (rule map_cong [OF refl]) (simp add: slot_def)
  show ?thesis
    by (simp only: finalVector_def filter_map c m)
qed

lemma filled_keys:
  assumes "S \<subseteq> set K"
  shows "distinct (map ((!) K) (filter (\<lambda>j. K ! j \<in> S \<and> keyPos K (K ! j) = j) [0 ..< length K]))"
    and "set (map ((!) K) (filter (\<lambda>j. K ! j \<in> S \<and> keyPos K (K ! j) = j) [0 ..< length K])) = S"
proof -
  let ?js = "filter (\<lambda>j. K ! j \<in> S \<and> keyPos K (K ! j) = j) [0 ..< length K]"
  have "inj_on ((!) K) (set ?js)"
  proof (rule inj_onI)
    fix x y
    assume a: "x \<in> set ?js" and b: "y \<in> set ?js" and e: "K ! x = K ! y"
    from a have px: "keyPos K (K ! x) = x" by simp
    from b have py: "keyPos K (K ! y) = y" by simp
    have "x = keyPos K (K ! x)" by (rule px [symmetric])
    also have "\<dots> = keyPos K (K ! y)" by (simp only: e)
    also have "\<dots> = y" by (rule py)
    finally show "x = y" .
  qed
  then show "distinct (map ((!) K) ?js)"
    by (simp add: distinct_map)
  show "set (map ((!) K) ?js) = S"
  proof (intro set_eqI iffI)
    fix k
    assume "k \<in> set (map ((!) K) ?js)"
    then show "k \<in> S" by auto
  next
    fix k
    assume k: "k \<in> S"
    with assms have "k \<in> set K" by blast
    note p = keyPos_props [OF this]
    have "keyPos K k \<in> set ?js" using p(1,2) k by simp
    then have "K ! keyPos K k \<in> set (map ((!) K) ?js)" unfolding set_map by (rule imageI)
    then show "k \<in> set (map ((!) K) ?js)" by (simp only: p(2))
  qed
qed

lemma finalVector_mset:
  assumes "set ks \<subseteq> set K" and "\<forall>k \<in> set ks. isSignature (Buf (sg k))" and "distinct ks"
  shows "mset (finalVector K sg (set ks)) = mset (OP_0 # map (\<lambda>k. Push (sg k)) ks)"
proof -
  let ?js = "filter (\<lambda>j. K ! j \<in> set ks \<and> keyPos K (K ! j) = j) [0 ..< length K]"
  have "mset (map ((!) K) ?js) = mset ks"
    using filled_keys [OF assms(1)] assms(3) by (simp only: set_eq_iff_mset_eq_distinct [symmetric])
  then have "mset (map (\<lambda>k. Push (sg k)) (map ((!) K) ?js)) = mset (map (\<lambda>k. Push (sg k)) ks)"
    by (simp only: mset_map)
  then have "mset (map (\<lambda>j. Push (sg (K ! j))) ?js) = mset (map (\<lambda>k. Push (sg k)) ks)"
    by (simp only: map_map comp_def)
  then show ?thesis
    by (simp only: finalVector_filled [OF assms(2)] mset.simps)
qed

lemma finalVector_distinct:
  assumes "distinct K" and "\<forall>k \<in> S. isSignature (Buf (sg k))"
  shows "finalVector K sg S = OP_0 # map (\<lambda>k. Push (sg k)) (filter (\<lambda>k. k \<in> S) K)"
proof -
  have pos: "keyPos K (K ! j) = j" if "j < length K" for j
  proof -
    have "K ! j \<in> set K" using that by simp
    from keyPos_props(1,2) [OF this] that assms(1) show ?thesis
      by (simp add: nth_eq_iff_index_eq)
  qed
  have f: "filter (\<lambda>j. K ! j \<in> S \<and> keyPos K (K ! j) = j) [0 ..< length K] =
           filter ((\<lambda>k. k \<in> S) \<circ> (!) K) [0 ..< length K]"
    by (rule filter_cong [OF refl]) (simp add: pos)
  have "map (\<lambda>j. Push (sg (K ! j))) (filter ((\<lambda>k. k \<in> S) \<circ> (!) K) [0 ..< length K]) =
        map (\<lambda>k. Push (sg k)) (map ((!) K) (filter ((\<lambda>k. k \<in> S) \<circ> (!) K) [0 ..< length K]))"
    by (simp only: map_map comp_def)
  also have "\<dots> = map (\<lambda>k. Push (sg k)) (filter (\<lambda>k. k \<in> S) (map ((!) K) [0 ..< length K]))"
    by (simp only: filter_map)
  also have "\<dots> = map (\<lambda>k. Push (sg k)) (filter (\<lambda>k. k \<in> S) K)"
    by (simp only: map_nth)
  finally show ?thesis
    by (simp only: finalVector_filled [OF assms(2)] f)
qed

lemma partialVector_distinct:
  assumes "distinct K"
  shows "partialVector K sg S = OP_0 # map (\<lambda>k. if k \<in> S then Push (sg k) else OP_0) K"
proof -
  have pos: "keyPos K (K ! j) = j" if "j < length K" for j
  proof -
    have "K ! j \<in> set K" using that by simp
    from keyPos_props(1,2) [OF this] that assms show ?thesis
      by (simp add: nth_eq_iff_index_eq)
  qed
  have "map (slot K sg S) [0 ..< length K] =
        map ((\<lambda>k. if k \<in> S then Push (sg k) else OP_0) \<circ> (!) K) [0 ..< length K]"
    by (rule map_cong [OF refl]) (simp add: slot_def pos)
  also have "\<dots> = map (\<lambda>k. if k \<in> S then Push (sg k) else OP_0) (map ((!) K) [0 ..< length K])"
    by (simp only: map_map)
  also have "\<dots> = map (\<lambda>k. if k \<in> S then Push (sg k) else OP_0) K"
    by (simp only: map_nth)
  finally show ?thesis
    by (simp only: partialVector_def)
qed

text \<open>
  Claim C2 (as amended). For a bare m-of-n multisig previous script and \<open>m\<close> distinct keys
  of the script, each with a well-formed signature, signing the templated vector with the
  keys in any order gives the same final vector: the marker followed by the signatures of
  exactly these \<open>m\<close> keys, each at the place of its key among the keys of the script (in
  the order of the script's keys when these are distinct), \<open>m + 1\<close> items in all; signing
  it again with any of the keys returns true and leaves it as it is. While fewer than \<open>m\<close>
  keys have signed, the vector holds the marker and \<open>n\<close> slots, the signature of each key
  that signed in the slot of its key and the other slots empty; signing again with a key
  that already signed leaves the vector as it is, but returns false: the result is true
  exactly when the vector holds \<open>m\<close> signatures.
\<close>

theorem signVector_order_independent:
  assumes "isMultisig prev"
    and "distinct ks"
    and "\<forall>k \<in> set ks. Buf k \<in> set (scriptKeys prev)"
    and "int (length ks) = getSmall prev 0"
    and "\<forall>k \<in> set ks. isSignature (Buf (sg k))"
    and "\<forall>k. publicKey (rings k) = k"
    and "mset ks' = mset ks"
  shows "\<exists>K. scriptKeys prev = map Buf K \<and>
         (\<exists>v. signAll prev sg rings ks (OP_0 # replicate (length (scriptKeys prev)) OP_0) = Inr v \<and>
              signAll prev sg rings ks' (OP_0 # replicate (length (scriptKeys prev)) OP_0) = Inr v \<and>
              v = finalVector K sg (set ks) \<and>
              mset v = mset (OP_0 # map (\<lambda>k. Push (sg k)) ks) \<and>
              (distinct K \<longrightarrow>
                 v = OP_0 # map (\<lambda>k. Push (sg k)) (filter (\<lambda>k. k \<in> set ks) K)) \<and>
              length v = length ks + 1 \<and>
              (\<forall>k \<in> set ks. signVector prev v (sg k) (rings k) = Inr (True, v))) \<and>
         (\<forall>js k. distinct js \<and> set js \<subseteq> set ks \<and> k \<in> set js \<longrightarrow>
            (\<exists>w. signAll prev sg rings js (OP_0 # replicate (length (scriptKeys prev)) OP_0) = Inr w \<and>
                 w = (if length js = length ks then finalVector K sg (set js)
                      else partialVector K sg (set js)) \<and>
                 (distinct K \<and> length js \<noteq> length ks \<longrightarrow>
                    w = OP_0 # map (\<lambda>x. if x \<in> set js then Push (sg x) else OP_0) K) \<and>
                 signVector prev w (sg k) (rings k) = Inr (length js = length ks, w)))"
proof -
  from isMultisig_shape [OF assms(1)] obtain a K b where
    p: "prev = Op a # map Push K @ [Op b, Op OP_CHECKMULTISIG]"
    and b: "opSmall (Op b) = int (length K)"
    and m1: "1 \<le> opSmall (Op a)" and g: "getSmall prev 0 = opSmall (Op a)"
    by blast
  note acc = multisig_accessors [OF p]
  let ?tmpl = "OP_0 # replicate (length (scriptKeys prev)) OP_0"
  have tmpl: "?tmpl = partialVector K sg {}"
    by (simp add: partialVector_empty acc(1))
  have sub: "set ks \<subseteq> set K"
    using assms(3) by (auto simp: acc(1))
  have m: "int (length ks) = getSmall prev 0" by (rule assms(4))
  then have ne: "ks \<noteq> []" using m1 g by auto
  have card: "card (set ks) = length ks" using assms(2) by (rule distinct_card)
  have run: "signAll prev sg rings js ?tmpl =
               Inr (if int (length js) < getSmall prev 0 then partialVector K sg (set js)
                    else finalVector K sg (set js))"
    if "distinct js" "set js \<subseteq> set ks" "js \<noteq> []" for js
  proof -
    have "card (set js) \<le> card (set ks)" using that(2) by (simp add: card_mono)
    then have le: "length js \<le> length ks"
      using that(1) card by (simp add: distinct_card)
    have "signAll prev sg rings js (partialVector K sg {}) =
           Inr (if js = [] \<or> int (card ({} :: bytes set)) + int (length js) < getSmall prev 0
                then partialVector K sg ({} \<union> set js)
                else finalVector K sg ({} \<union> set js))"
    proof (rule signAll_partial [OF p b assms(1) assms(6)])
      show "distinct js" by (rule that(1))
      show "set js \<subseteq> set K" using that(2) sub by blast
      show "set js \<inter> {} = {}" by simp
      show "{} \<subseteq> set K" by simp
      show "\<forall>x \<in> {} \<union> set js. isSignature (Buf (sg x))" using that(2) assms(5) by auto
      show "int (card ({} :: bytes set)) + int (length js) \<le> getSmall prev 0"
        using le m by simp
    qed
    then show ?thesis using that(3) by (simp add: tmpl)
  qed
  have dk': "distinct ks'" "set ks' = set ks" "length ks' = length ks"
    using assms(7) assms(2) mset_eq_setD mset_eq_length
    by (metis mset_eq_imp_distinct_iff, blast, blast)
  let ?v = "finalVector K sg (set ks)"
  have r1: "signAll prev sg rings ks ?tmpl = Inr ?v"
    using run [of ks] assms(2) ne m by simp
  have ne': "ks' \<noteq> []" using dk'(3) ne by auto
  have r2: "signAll prev sg rings ks' ?tmpl = Inr ?v"
    using run [of ks'] dk' ne' m by simp
  have sigs: "\<forall>x \<in> set ks. isSignature (Buf (sg x))" by (rule assms(5))
  have len: "length ?v = length ks + 1"
    using vector_counts(3) [OF sub sigs] card by simp
  have again: "signVector prev ?v sig ring = Inr (True, ?v)" for sig ring
    using signMultisig_final [OF p b sub sigs, of sig ring] card m
    by (simp add: signVector_multisig [OF assms(1)])
  have ag: "\<forall>k \<in> set ks. signVector prev ?v (sg k) (rings k) = Inr (True, ?v)"
    using again by (intro ballI)
  have items: "mset ?v = mset (OP_0 # map (\<lambda>k. Push (sg k)) ks)"
    by (rule finalVector_mset [OF sub sigs assms(2)])
  have order: "distinct K \<longrightarrow> ?v = OP_0 # map (\<lambda>k. Push (sg k)) (filter (\<lambda>k. k \<in> set ks) K)"
    using finalVector_distinct [OF _ sigs, of K] by (intro impI)
  have part1: "\<exists>v. signAll prev sg rings ks ?tmpl = Inr v \<and>
              signAll prev sg rings ks' ?tmpl = Inr v \<and>
              v = finalVector K sg (set ks) \<and>
              mset v = mset (OP_0 # map (\<lambda>k. Push (sg k)) ks) \<and>
              (distinct K \<longrightarrow>
                 v = OP_0 # map (\<lambda>k. Push (sg k)) (filter (\<lambda>k. k \<in> set ks) K)) \<and>
              length v = length ks + 1 \<and>
              (\<forall>k \<in> set ks. signVector prev v (sg k) (rings k) = Inr (True, v))"
    using r1 r2 refl [of ?v] items order len ag by (intro exI [of _ ?v] conjI)
  have part2: "\<forall>js k. distinct js \<and> set js \<subseteq> set ks \<and> k \<in> set js \<longrightarrow>
            (\<exists>w. signAll prev sg rings js ?tmpl = Inr w \<and>
                 w = (if length js = length ks then finalVector K sg (set js)
                      else partialVector K sg (set js)) \<and>
                 (distinct K \<and> length js \<noteq> length ks \<longrightarrow>
                    w = OP_0 # map (\<lambda>x. if x \<in> set js then Push (sg x) else OP_0) K) \<and>
                 signVector prev w (sg k) (rings k) = Inr (length js = length ks, w))"
  proof (intro allI impI)
    fix js k
    assume h: "distinct js \<and> set js \<subseteq> set ks \<and> k \<in> set js"
    then have d: "distinct js" and s: "set js \<subseteq> set ks" and k: "k \<in> set js" and jn: "js \<noteq> []"
      by auto
    have "card (set js) \<le> card (set ks)" using s by (simp add: card_mono)
    then have le: "length js \<le> length ks"
      using d card by (simp add: distinct_card)
    have cj: "card (set js) = length js" using d by (rule distinct_card)
    have sj: "set js \<subseteq> set K" using s sub by blast
    have sigj: "\<forall>x \<in> set js. isSignature (Buf (sg x))" using s assms(5) by auto
    let ?w = "if length js = length ks then finalVector K sg (set js)
              else partialVector K sg (set js)"
    have w1: "signAll prev sg rings js ?tmpl = Inr ?w"
      using run [OF d s jn] le m by (cases "length js = length ks") simp_all
    have w2: "distinct K \<and> length js \<noteq> length ks \<longrightarrow>
                ?w = OP_0 # map (\<lambda>x. if x \<in> set js then Push (sg x) else OP_0) K"
      using partialVector_distinct [of K sg "set js"] by simp
    have w3: "signVector prev ?w (sg k) (rings k) = Inr (length js = length ks, ?w)"
    proof (cases "length js = length ks")
      case True
      then have "set js = set ks"
        using s card cj by (metis card_subset_eq List.finite_set)
      with again [of "sg k" "rings k"] True show ?thesis by simp
    next
      case False
      with le have lt: "int (length js) < getSmall prev 0" using m by simp
      have kK: "k \<in> set K" using k sj by blast
      have sigk: "\<forall>x \<in> insert k (set js). isSignature (Buf (sg x))"
        using sigj k by (simp add: insert_absorb)
      have less: "int (card (set js)) < getSmall prev 0" using lt cj by simp
      from signMultisig_partial [OF p b sj kK sigk less, of "rings k"] assms(6) k
      have "signVector prev (partialVector K sg (set js)) (sg k) (rings k) =
              Inr (False, partialVector K sg (set js))"
        by (simp add: signVector_multisig [OF assms(1)])
      with False show ?thesis by simp
    qed
    from w1 refl [of ?w] w2 w3
    show "\<exists>w. signAll prev sg rings js ?tmpl = Inr w \<and>
                 w = (if length js = length ks then finalVector K sg (set js)
                      else partialVector K sg (set js)) \<and>
                 (distinct K \<and> length js \<noteq> length ks \<longrightarrow>
                    w = OP_0 # map (\<lambda>x. if x \<in> set js then Push (sg x) else OP_0) K) \<and>
                 signVector prev w (sg k) (rings k) = Inr (length js = length ks, w)"
      by (intro exI [of _ ?w] conjI)
  qed
  from acc(1) part1 part2 show ?thesis
    by (intro exI [of _ K] conjI)
qed

theorem signVector_order_independent_witness:
  "signAll ex_multisig ex_sig ex_ring [ex_key 1, ex_key 3] [OP_0, OP_0, OP_0, OP_0] =
     Inr [OP_0, Push (ex_sig (ex_key 1)), Push (ex_sig (ex_key 3))] \<and>
   signAll ex_multisig ex_sig ex_ring [ex_key 3, ex_key 1] [OP_0, OP_0, OP_0, OP_0] =
     Inr [OP_0, Push (ex_sig (ex_key 1)), Push (ex_sig (ex_key 3))] \<and>
   signVector ex_multisig [OP_0, Push (ex_sig (ex_key 1)), Push (ex_sig (ex_key 3))]
       (ex_sig (ex_key 3)) (ex_ring (ex_key 3)) =
     Inr (True, [OP_0, Push (ex_sig (ex_key 1)), Push (ex_sig (ex_key 3))]) \<and>
   signAll ex_multisig ex_sig ex_ring [ex_key 3] [OP_0, OP_0, OP_0, OP_0] =
     Inr [OP_0, OP_0, OP_0, Push (ex_sig (ex_key 3))] \<and>
   signVector ex_multisig [OP_0, OP_0, OP_0, Push (ex_sig (ex_key 3))]
       (ex_sig (ex_key 3)) (ex_ring (ex_key 3)) =
     Inr (False, [OP_0, OP_0, OP_0, Push (ex_sig (ex_key 3))])"
proof -
  have ms: "isMultisig ex_multisig" by code_simp
  have k: "scriptKeys ex_multisig = [Buf (ex_key 1), Buf (ex_key 2), Buf (ex_key 3)]"
    by code_simp
  have d: "distinct [ex_key 1, ex_key 3]" by code_simp
  have mem: "\<forall>k \<in> set [ex_key 1, ex_key 3]. Buf k \<in> set (scriptKeys ex_multisig)"
    by (simp add: k)
  have m: "int (length [ex_key 1, ex_key 3]) = getSmall ex_multisig 0" by code_simp
  have sg: "\<forall>k \<in> set [ex_key 1, ex_key 3]. isSignature (Buf (ex_sig k))"
    by (simp add: isSignature_def ex_sig_def)
  have rg: "\<forall>k. publicKey (ex_ring k) = k" by (simp add: ex_ring_def)
  have ps: "mset [ex_key 3, ex_key 1] = mset [ex_key 1, ex_key 3]" by simp
  have tm: "OP_0 # replicate (length (scriptKeys ex_multisig)) OP_0 = [OP_0, OP_0, OP_0, OP_0]"
    by (simp add: k)
  have dK: "distinct [ex_key 1, ex_key 2, ex_key 3]" by code_simp
  have fl: "filter (\<lambda>k. k \<in> set [ex_key 1, ex_key 3]) [ex_key 1, ex_key 2, ex_key 3] =
            [ex_key 1, ex_key 3]"
    by code_simp
  have pl: "map (\<lambda>x. if x \<in> set [ex_key 3] then Push (ex_sig x) else OP_0)
              [ex_key 1, ex_key 2, ex_key 3] = [OP_0, OP_0, Push (ex_sig (ex_key 3))]"
    by code_simp
  from signVector_order_independent [OF ms d mem m sg rg ps]
  obtain K v where K: "scriptKeys ex_multisig = map Buf K"
    and v1: "signAll ex_multisig ex_sig ex_ring [ex_key 1, ex_key 3]
               (OP_0 # replicate (length (scriptKeys ex_multisig)) OP_0) = Inr v"
    and v2: "signAll ex_multisig ex_sig ex_ring [ex_key 3, ex_key 1]
               (OP_0 # replicate (length (scriptKeys ex_multisig)) OP_0) = Inr v"
    and v3: "distinct K \<longrightarrow>
               v = OP_0 # map (\<lambda>k. Push (ex_sig k)) (filter (\<lambda>k. k \<in> set [ex_key 1, ex_key 3]) K)"
    and v4: "\<forall>k \<in> set [ex_key 1, ex_key 3].
               signVector ex_multisig v (ex_sig k) (ex_ring k) = Inr (True, v)"
    and p2: "\<forall>js k. distinct js \<and> set js \<subseteq> set [ex_key 1, ex_key 3] \<and> k \<in> set js \<longrightarrow>
            (\<exists>w. signAll ex_multisig ex_sig ex_ring js
                    (OP_0 # replicate (length (scriptKeys ex_multisig)) OP_0) = Inr w \<and>
                 w = (if length js = length [ex_key 1, ex_key 3]
                      then finalVector K ex_sig (set js) else partialVector K ex_sig (set js)) \<and>
                 (distinct K \<and> length js \<noteq> length [ex_key 1, ex_key 3] \<longrightarrow>
                    w = OP_0 # map (\<lambda>x. if x \<in> set js then Push (ex_sig x) else OP_0) K) \<and>
                 signVector ex_multisig w (ex_sig k) (ex_ring k) =
                   Inr (length js = length [ex_key 1, ex_key 3], w))"
    by (elim exE conjE)
  have "inj Buf" by (simp add: inj_def)
  then have "(map Buf K = map Buf [ex_key 1, ex_key 2, ex_key 3]) =
             (K = [ex_key 1, ex_key 2, ex_key 3])"
    by (rule inj_map_eq_map)
  with K k have K': "K = [ex_key 1, ex_key 2, ex_key 3]" by simp
  from v3 dK have "v = OP_0 # map (\<lambda>k. Push (ex_sig k))
                         (filter (\<lambda>k. k \<in> set [ex_key 1, ex_key 3]) [ex_key 1, ex_key 2, ex_key 3])"
    unfolding K' by (rule mp)
  then have v: "v = [OP_0, Push (ex_sig (ex_key 1)), Push (ex_sig (ex_key 3))]"
    unfolding fl by simp
  have a1: "signAll ex_multisig ex_sig ex_ring [ex_key 1, ex_key 3] [OP_0, OP_0, OP_0, OP_0] =
     Inr [OP_0, Push (ex_sig (ex_key 1)), Push (ex_sig (ex_key 3))]"
    using v1 unfolding tm v .
  have a2: "signAll ex_multisig ex_sig ex_ring [ex_key 3, ex_key 1] [OP_0, OP_0, OP_0, OP_0] =
     Inr [OP_0, Push (ex_sig (ex_key 1)), Push (ex_sig (ex_key 3))]"
    using v2 unfolding tm v .
  have "ex_key 3 \<in> set [ex_key 1, ex_key 3]" by simp
  with v4 have "signVector ex_multisig v (ex_sig (ex_key 3)) (ex_ring (ex_key 3)) = Inr (True, v)"
    by (rule bspec)
  then have a3: "signVector ex_multisig [OP_0, Push (ex_sig (ex_key 1)), Push (ex_sig (ex_key 3))]
       (ex_sig (ex_key 3)) (ex_ring (ex_key 3)) =
     Inr (True, [OP_0, Push (ex_sig (ex_key 1)), Push (ex_sig (ex_key 3))])"
    unfolding v .
  have j: "distinct [ex_key 3] \<and> set [ex_key 3] \<subseteq> set [ex_key 1, ex_key 3] \<and>
           ex_key 3 \<in> set [ex_key 3]"
    by simp
  from p2 [rule_format, OF j]
  obtain w where w1: "signAll ex_multisig ex_sig ex_ring [ex_key 3]
                    (OP_0 # replicate (length (scriptKeys ex_multisig)) OP_0) = Inr w"
    and w2: "distinct K \<and> length [ex_key 3] \<noteq> length [ex_key 1, ex_key 3] \<longrightarrow>
                    w = OP_0 # map (\<lambda>x. if x \<in> set [ex_key 3] then Push (ex_sig x) else OP_0) K"
    and w3: "signVector ex_multisig w (ex_sig (ex_key 3)) (ex_ring (ex_key 3)) =
                   Inr (length [ex_key 3] = length [ex_key 1, ex_key 3], w)"
    by (elim exE conjE)
  have "distinct K \<and> length [ex_key 3] \<noteq> length [ex_key 1, ex_key 3]"
    using dK unfolding K' by simp
  with w2 have "w = OP_0 # map (\<lambda>x. if x \<in> set [ex_key 3] then Push (ex_sig x) else OP_0) K"
    by (rule mp)
  then have w: "w = [OP_0, OP_0, OP_0, Push (ex_sig (ex_key 3))]"
    unfolding K' pl .
  have a4: "signAll ex_multisig ex_sig ex_ring [ex_key 3] [OP_0, OP_0, OP_0, OP_0] =
     Inr [OP_0, OP_0, OP_0, Push (ex_sig (ex_key 3))]"
    using w1 unfolding tm w .
  have a5: "signVector ex_multisig [OP_0, OP_0, OP_0, Push (ex_sig (ex_key 3))]
       (ex_sig (ex_key 3)) (ex_ring (ex_key 3)) =
     Inr (False, [OP_0, OP_0, OP_0, Push (ex_sig (ex_key 3))])"
    using w3 unfolding w by simp
  from a1 a2 a3 a4 a5 show ?thesis by (intro conjI)
qed

text \<open>
  The claim as stated fails on the result of the second application: in a 2-of-3 vector
  that holds one signature, signing again with the same key changes nothing and returns
  false.
\<close>

theorem signVector_again_counterexample:
  "case signVector ex_multisig [OP_0, OP_0, OP_0, OP_0] (ex_sig (ex_key 2)) (ex_ring (ex_key 2)) of
     Inr (ok, v) \<Rightarrow>
       \<not> ok \<and> signVector ex_multisig v (ex_sig (ex_key 2)) (ex_ring (ex_key 2)) = Inr (False, v)
   | Inl e \<Rightarrow> False"
  by code_simp


end
